theory Spec2Isabelle
  imports Main
begin

section \<open>The token driver of the JavaScript runtime (Lexer.js)\<close>

text \<open>
  The driver is the class \<open>Lexer\<close> of \<open>src/antlr4/Lexer.js\<close>. It works on four
  collaborators that are not part of the sources: the character stream, the token
  factory, the error listener dispatch and the pattern-matching interpreter. The first
  three are modelled from the interface the specification gives them; the interpreter's
  \<open>match\<close> depends on the grammar and is a parameter of every definition.

  A JavaScript exception is a value of type \<open>exn\<close>; a method that can throw returns a
  sum with the exception on the left. What \<open>console.log\<close> writes is not modelled, but
  the evaluation of its argument is where that can throw (line 124).
\<close>

subsection \<open>Exceptions\<close>

text \<open>
  \<open>LexerNoViableAltException\<close> is a subclass of \<open>RecognitionException\<close>; the
  constructor \<open>RecognitionException\<close> stands for an instance of any other recognition
  exception class. \<open>TypeError\<close> is what a property access on \<open>null\<close> or
  \<open>undefined\<close> raises (the argument names the property). JavaScript can throw any
  value: \<open>ThrownNull\<close> is a thrown \<open>null\<close> or \<open>undefined\<close>, \<open>Thrown\<close> is any
  other thrown value. Each but \<open>ThrownNull\<close> carries its detail as a string.
\<close>

datatype exn =
    LexerNoViableAltException string
  | RecognitionException string
  | TypeError string
  | ThrownNull
  | Thrown string

text \<open>\<open>e instanceof RecognitionException\<close>\<close>

fun instanceof_RecognitionException :: "exn \<Rightarrow> bool" where
  "instanceof_RecognitionException (LexerNoViableAltException d) = True"
| "instanceof_RecognitionException (RecognitionException d) = True"
| "instanceof_RecognitionException (TypeError d) = False"
| "instanceof_RecognitionException ThrownNull = False"
| "instanceof_RecognitionException (Thrown d) = False"

text \<open>\<open>re instanceof LexerNoViableAltException\<close>\<close>

fun instanceof_LexerNoViableAltException :: "exn \<Rightarrow> bool" where
  "instanceof_LexerNoViableAltException (LexerNoViableAltException d) = True"
| "instanceof_LexerNoViableAltException (RecognitionException d) = False"
| "instanceof_LexerNoViableAltException (TypeError d) = False"
| "instanceof_LexerNoViableAltException ThrownNull = False"
| "instanceof_LexerNoViableAltException (Thrown d) = False"

text \<open>
  \<open>e.stack\<close>, the argument of \<open>console.log\<close> at line 124: reading a property of
  \<open>null\<close> or \<open>undefined\<close> raises a \<open>TypeError\<close>; any other value has the
  property or yields \<open>undefined\<close>, which is then printed.
\<close>

fun read_stack :: "exn \<Rightarrow> exn + unit" where
  "read_stack (LexerNoViableAltException d) = Inr ()"
| "read_stack (RecognitionException d) = Inr ()"
| "read_stack (TypeError d) = Inr ()"
| "read_stack ThrownNull = Inl (TypeError ''stack'')"
| "read_stack (Thrown d) = Inr ()"

subsection \<open>The character stream\<close>

text \<open>
  Modelled from the spec: the character stream (its class is not among the sources).
  The specification lists \<open>index\<close>, \<open>LA(1)\<close> ("lookahead one character, or an
  end-of-input sentinel value"), \<open>seek(pos)\<close>, \<open>mark() -> marker\<close>,
  \<open>release(marker)\<close>, \<open>consume()\<close> and \<open>getText(start, stop)\<close>. A stream is a finite
  sequence of characters with a current position. \<open>ident\<close> is the identity of the stream
  object, by which the token factory's source pair refers to it. \<open>marks\<close> holds the
  markers that are handed out and not yet released, \<open>issued\<close> counts the markers handed
  out so far and is the next handle.
\<close>

record char_stream =
  ident :: nat
  data :: string
  index :: int
  issued :: nat
  marks :: "nat list"

text \<open>
  Modelled from the spec: \<open>LA(1)\<close>. The end-of-input sentinel \<open>Token.EOF\<close> is defined
  in \<open>Token.js\<close>, which is not among the sources; it is the parameter \<open>eof\<close>.
\<close>

definition LA1 :: "int \<Rightarrow> char_stream \<Rightarrow> int" where
  "LA1 eof st =
     (if 0 \<le> index st \<and> index st < int (length (data st))
      then int (of_char (data st ! nat (index st)))
      else eof)"

text \<open>
  Modelled from the spec: \<open>consume()\<close> advances the position by one character. A stream
  that has no character at its position has nothing to consume and raises.
\<close>

definition stream_consume :: "char_stream \<Rightarrow> exn + char_stream" where
  "stream_consume st =
     (if 0 \<le> index st \<and> index st < int (length (data st))
      then Inr (st\<lparr>index := index st + 1\<rparr>)
      else Inl (Thrown ''cannot consume EOF''))"

text \<open>Modelled from the spec: \<open>seek(pos)\<close>.\<close>

definition stream_seek :: "int \<Rightarrow> char_stream \<Rightarrow> char_stream" where
  "stream_seek pos st = st\<lparr>index := pos\<rparr>"

text \<open>Modelled from the spec: \<open>mark() -> marker\<close> and \<open>release(marker)\<close>.\<close>

definition stream_mark :: "char_stream \<Rightarrow> nat \<times> char_stream" where
  "stream_mark st = (issued st, st\<lparr>issued := Suc (issued st), marks := issued st # marks st\<rparr>)"

definition stream_release :: "nat \<Rightarrow> char_stream \<Rightarrow> char_stream" where
  "stream_release m st = st\<lparr>marks := removeAll m (marks st)\<rparr>"

text \<open>
  Modelled from the spec: \<open>getText(start, stop)\<close>, the characters from \<open>start\<close> to
  \<open>stop\<close>, both included.
\<close>

definition stream_getText :: "int \<Rightarrow> int \<Rightarrow> char_stream \<Rightarrow> string" where
  "stream_getText start stop st = take (nat (stop + 1 - start)) (drop (nat start) (data st))"

subsection \<open>Tokens\<close>

text \<open>
  Modelled from the spec: a token is the "immutable tuple of {source pair (driver,
  stream), type, text, channel, startIndex, stopIndex, line, column}". The first
  component of the source pair is always the driver itself, so a pair is represented by
  its second component: the identity of the stream, or \<open>None\<close> for \<open>null\<close>.
\<close>

record token =
  tok_source :: "nat option"
  tok_type :: int
  tok_text :: "string option"
  tok_channel :: int
  tok_start :: int
  tok_stop :: int
  tok_line :: int
  tok_column :: int

text \<open>What the error listener dispatch receives: line, column, message, failure.\<close>

type_synonym syntax_error = "int \<times> int \<times> string \<times> exn"

subsection \<open>The driver's state\<close>

text \<open>
  The fields of \<open>Lexer\<close> (the leading underscore of the JavaScript names is dropped, and
  \<open>_text\<close> is \<open>text'\<close>), together with the state of the collaborators the driver
  refers to: the interpreter's \<open>line\<close> and \<open>column\<close>, the tokens the factory has
  created (latest first) and the errors the listener dispatch has received (latest
  first). The stream is held in \<open>input\<close>; \<open>None\<close> is \<open>null\<close>.
\<close>

record lexer =
  input :: "char_stream option"
  tokenFactorySourcePair :: "nat option"
  token :: "token option"
  tokenStartCharIndex :: int
  tokenStartLine :: int
  tokenStartColumn :: int
  hitEOF :: bool
  channel :: int
  type :: int
  modeStack :: "int list"
  mode :: int
  text' :: "string option"
  interp_line :: int
  interp_column :: int
  factory_created :: "token list"
  listener_received :: "syntax_error list"

subsection \<open>The interpreter and the constants of Token.js\<close>

text \<open>What a call of the interpreter's \<open>match\<close> does: it returns a type or throws.\<close>

datatype match_outcome = Returned int | Raised exn

text \<open>
  The parts of the program that are not among the sources and that the specification
  does not fix are parameters:
  \<^item> \<open>Token_EOF\<close>, \<open>Token_INVALID_TYPE\<close>, \<open>Token_DEFAULT_CHANNEL\<close>: the constants of
    \<open>Token.js\<close>;
  \<^item> \<open>interp_match\<close>: the interpreter's \<open>match(input, mode)\<close>. Matching runs the rule
    actions of the grammar, which call back into the driver, so it takes the mode and the
    whole state and returns its outcome and the state it leaves;
  \<^item> \<open>interp_track\<close>: how the interpreter's \<open>consume\<close> updates (line, column) for the
    character it consumes;
  \<^item> \<open>interp_home\<close>: the (line, column) the interpreter's \<open>reset\<close> goes back to.
\<close>

record env =
  Token_EOF :: int
  Token_INVALID_TYPE :: int
  Token_DEFAULT_CHANNEL :: int
  interp_match :: "int \<Rightarrow> lexer \<Rightarrow> match_outcome \<times> lexer"
  interp_track :: "int \<Rightarrow> int \<times> int \<Rightarrow> int \<times> int"
  interp_home :: "int \<times> int"

text \<open>The constants at the end of \<open>Lexer.js\<close>.\<close>

definition Lexer_DEFAULT_MODE :: int where "Lexer_DEFAULT_MODE = 0"
definition Lexer_MORE :: int where "Lexer_MORE = - 2"
definition Lexer_SKIP :: int where "Lexer_SKIP = - 3"

text \<open>
  Modelled from the spec: the interpreter's \<open>consume(stream)\<close>, which "advances one
  character with line/column tracking", and its \<open>reset()\<close>, which "resets the
  interpreter's internal position tracking".
\<close>

definition interp_consume :: "env \<Rightarrow> lexer \<Rightarrow> exn + lexer" where
  "interp_consume E L =
     (case input L of
        None \<Rightarrow> Inl (TypeError ''LA'')
      | Some st \<Rightarrow>
          (case interp_track E (LA1 (Token_EOF E) st) (interp_line L, interp_column L) of
             (l, c) \<Rightarrow>
               (case stream_consume st of
                  Inl e \<Rightarrow> Inl e
                | Inr st' \<Rightarrow> Inr (L\<lparr>input := Some st', interp_line := l, interp_column := c\<rparr>))))"

definition interp_reset :: "env \<Rightarrow> lexer \<Rightarrow> lexer" where
  "interp_reset E L = L\<lparr>interp_line := fst (interp_home E), interp_column := snd (interp_home E)\<rparr>"

text \<open>
  Modelled from the spec: the token factory's \<open>create(sourcePair, type, text|null,
  channel, start, stop, line, column) -> Token\<close>. The new token is recorded in
  \<open>factory_created\<close>.
\<close>

definition factory_create ::
  "nat option \<Rightarrow> int \<Rightarrow> string option \<Rightarrow> int \<Rightarrow> int \<Rightarrow> int \<Rightarrow> int \<Rightarrow> int \<Rightarrow> lexer \<Rightarrow> token \<times> lexer" where
  "factory_create pair ty txt ch start stop ln col L =
     (let t = \<lparr>tok_source = pair, tok_type = ty, tok_text = txt, tok_channel = ch,
                tok_start = start, tok_stop = stop, tok_line = ln, tok_column = col\<rparr>
      in (t, L\<lparr>factory_created := t # factory_created L\<rparr>))"

text \<open>
  Modelled from the spec: the error listener dispatch's \<open>syntaxError(recognizer,
  offendingSymbol|null, line, column, message, failureDetail)\<close>. The driver always passes
  itself and \<open>null\<close> as the first two arguments; the rest is recorded in
  \<open>listener_received\<close>.
\<close>

definition syntaxError :: "int \<Rightarrow> int \<Rightarrow> string \<Rightarrow> exn \<Rightarrow> lexer \<Rightarrow> lexer" where
  "syntaxError ln col msg e L = L\<lparr>listener_received := (ln, col, msg, e) # listener_received L\<rparr>"

section \<open>The methods of Lexer\<close>

subsection \<open>Construction and reset\<close>

text \<open>
  The constructor (lines 18 to 68). The generated subclass supplies the interpreter; a
  driver without one is not modelled, and the interpreter starts at its home position.
\<close>

definition Lexer :: "env \<Rightarrow> char_stream option \<Rightarrow> lexer" where
  "Lexer E inp =
     \<lparr>input = inp,
      tokenFactorySourcePair = map_option ident inp,
      token = None,
      tokenStartCharIndex = - 1,
      tokenStartLine = - 1,
      tokenStartColumn = - 1,
      hitEOF = False,
      channel = Token_DEFAULT_CHANNEL E,
      type = Token_INVALID_TYPE E,
      modeStack = [],
      mode = Lexer_DEFAULT_MODE,
      text' = None,
      interp_line = fst (interp_home E),
      interp_column = snd (interp_home E),
      factory_created = [],
      listener_received = []\<rparr>"

text \<open>\<open>reset()\<close> (lines 70 to 88).\<close>

definition reset :: "env \<Rightarrow> lexer \<Rightarrow> lexer" where
  "reset E L =
     (let L1 = (case input L of
                  None \<Rightarrow> L
                | Some st \<Rightarrow> L\<lparr>input := Some (stream_seek 0 st)\<rparr>)
      in interp_reset E
           (L1\<lparr>token := None,
               type := Token_INVALID_TYPE E,
               channel := Token_DEFAULT_CHANNEL E,
               tokenStartCharIndex := - 1,
               tokenStartColumn := - 1,
               tokenStartLine := - 1,
               text' := None,
               hitEOF := False,
               mode := Lexer_DEFAULT_MODE,
               modeStack := []\<rparr>))"

text \<open>The setter \<open>inputStream\<close> (lines 308 to 314).\<close>

definition set_inputStream :: "env \<Rightarrow> char_stream option \<Rightarrow> lexer \<Rightarrow> lexer" where
  "set_inputStream E inp L =
     (let L1 = L\<lparr>input := None\<rparr>;
          L2 = L1\<lparr>tokenFactorySourcePair := map_option ident (input L1)\<rparr>;
          L3 = reset E L2;
          L4 = L3\<lparr>input := inp\<rparr>
      in L4\<lparr>tokenFactorySourcePair := map_option ident (input L4)\<rparr>)"

subsection \<open>Modes\<close>

text \<open>
  \<open>skip()\<close>, \<open>more()\<close> and \<open>mode(m)\<close> (lines 164 to 174); the method \<open>mode\<close> is
  \<open>set_mode\<close> here, since \<open>mode\<close> is the field.
\<close>

definition skip :: "lexer \<Rightarrow> lexer" where
  "skip L = L\<lparr>type := Lexer_SKIP\<rparr>"

definition more :: "lexer \<Rightarrow> lexer" where
  "more L = L\<lparr>type := Lexer_MORE\<rparr>"

definition set_mode :: "int \<Rightarrow> lexer \<Rightarrow> lexer" where
  "set_mode m L = L\<lparr>mode := m\<rparr>"

text \<open>
  \<open>pushMode(m)\<close> (lines 176 to 182): \<open>Array.push\<close> appends at the end of the stack.
\<close>

definition pushMode :: "int \<Rightarrow> lexer \<Rightarrow> lexer" where
  "pushMode m L = set_mode m (L\<lparr>modeStack := modeStack L @ [mode L]\<rparr>)"

text \<open>
  \<open>popMode()\<close> (lines 184 to 193): \<open>Array.pop\<close> removes the last element and returns it.
  The result is the thrown value or the returned mode, and the state the call leaves.
\<close>

definition popMode :: "lexer \<Rightarrow> (exn + int) \<times> lexer" where
  "popMode L =
     (if length (modeStack L) = 0 then (Inl (Thrown ''Empty Stack''), L)
      else (let L1 = set_mode (last (modeStack L)) (L\<lparr>modeStack := butlast (modeStack L)\<rparr>)
            in (Inr (mode L1), L1)))"

subsection \<open>Emission\<close>

text \<open>\<open>emitToken(token)\<close> (lines 201 to 203).\<close>

definition emitToken :: "token \<Rightarrow> lexer \<Rightarrow> lexer" where
  "emitToken t L = L\<lparr>token := Some t\<rparr>"

text \<open>\<open>getCharIndex()\<close> (lines 232 to 234).\<close>

definition getCharIndex :: "lexer \<Rightarrow> exn + int" where
  "getCharIndex L = (case input L of None \<Rightarrow> Inl (TypeError ''index'') | Some st \<Rightarrow> Inr (index st))"

text \<open>
  \<open>emit()\<close> (lines 212 to 219). The arguments of \<open>create\<close> are evaluated first, so a
  missing stream throws before anything changes.
\<close>

definition emit :: "lexer \<Rightarrow> exn + token \<times> lexer" where
  "emit L =
     (case getCharIndex L of
        Inl e \<Rightarrow> Inl e
      | Inr i \<Rightarrow>
          (case factory_create (tokenFactorySourcePair L) (type L) (text' L) (channel L)
                  (tokenStartCharIndex L) (i - 1) (tokenStartLine L) (tokenStartColumn L) L of
             (t, L1) \<Rightarrow> Inr (t, emitToken t L1)))"

text \<open>
  \<open>emitEOF()\<close> (lines 221 to 229); the getters \<open>column\<close> and \<open>line\<close> read the
  interpreter's fields.
\<close>

definition emitEOF :: "env \<Rightarrow> lexer \<Rightarrow> exn + token \<times> lexer" where
  "emitEOF E L =
     (let cpos = interp_column L; lpos = interp_line L
      in case input L of
           None \<Rightarrow> Inl (TypeError ''index'')
         | Some st \<Rightarrow>
             (case factory_create (tokenFactorySourcePair L) (Token_EOF E) None
                     (Token_DEFAULT_CHANNEL E) (index st) (index st - 1) lpos cpos L of
                (eof, L1) \<Rightarrow> Inr (eof, emitToken eof L1)))"

subsection \<open>Reporting and recovery\<close>

text \<open>\<open>getErrorDisplay(s)\<close> (lines 260 to 266): the characters of \<open>s\<close>, joined again.\<close>

definition getErrorDisplay :: "string \<Rightarrow> string" where
  "getErrorDisplay s = concat (map (\<lambda>c. [c]) s)"

text \<open>\<open>notifyListeners(e)\<close> (lines 250 to 258).\<close>

definition notifyListeners :: "exn \<Rightarrow> lexer \<Rightarrow> exn + lexer" where
  "notifyListeners e L =
     (let start = tokenStartCharIndex L
      in case input L of
           None \<Rightarrow> Inl (TypeError ''index'')
         | Some st \<Rightarrow>
             (let stop = index st;
                  txt = stream_getText start stop st;
                  msg = ''token recognition error at: '' @ [CHR 0x27] @ getErrorDisplay txt @ [CHR 0x27]
              in Inr (syntaxError (tokenStartLine L) (tokenStartColumn L) msg e L)))"

text \<open>\<open>recover(re)\<close> (lines 292 to 302).\<close>

definition recover :: "env \<Rightarrow> exn \<Rightarrow> lexer \<Rightarrow> exn + lexer" where
  "recover E re L =
     (case input L of
        None \<Rightarrow> Inl (TypeError ''LA'')
      | Some st \<Rightarrow>
          (if LA1 (Token_EOF E) st \<noteq> Token_EOF E then
             (if instanceof_LexerNoViableAltException re then interp_consume E L
              else (case stream_consume st of
                      Inl e \<Rightarrow> Inl e
                    | Inr st' \<Rightarrow> Inr (L\<lparr>input := Some st'\<rparr>)))
           else Inr L))"

subsection \<open>nextToken\<close>

text \<open>
  How one pass through the body of the inner loop ends: the loop goes round again
  (\<open>Again\<close>), it is left with the given value of \<open>continueOuter\<close> (\<open>Break\<close>), or an
  exception leaves it (\<open>Throw\<close>). Each carries the state at that point.
\<close>

datatype round = Again lexer | Break bool lexer | Throw exn lexer

text \<open>
  Lines 107 to 112, the start of a new token at the top of the outer loop. The read
  of \<open>this._input.index\<close> comes after the first two assignments, which a
  \<open>TypeError\<close> therefore leaves in place.
\<close>

definition begin_token :: "env \<Rightarrow> lexer \<Rightarrow> exn \<times> lexer + lexer" where
  "begin_token E L =
     (let L1 = L\<lparr>token := None, channel := Token_DEFAULT_CHANNEL E\<rparr>
      in case input L1 of
           None \<Rightarrow> Inl (TypeError ''index'', L1)
         | Some st \<Rightarrow>
             Inr (L1\<lparr>tokenStartCharIndex := index st,
                     tokenStartColumn := interp_column L1,
                     tokenStartLine := interp_line L1,
                     text' := None\<rparr>))"

text \<open>
  Lines 128 to 140, the rest of the inner loop's body once \<open>ttype\<close> is settled.
\<close>

definition after_match :: "env \<Rightarrow> int \<Rightarrow> lexer \<Rightarrow> round" where
  "after_match E ttype L =
     (case input L of
        None \<Rightarrow> Throw (TypeError ''LA'') L
      | Some st \<Rightarrow>
          (let L1 = (if LA1 (Token_EOF E) st = Token_EOF E then L\<lparr>hitEOF := True\<rparr> else L);
               L2 = (if type L1 = Token_INVALID_TYPE E then L1\<lparr>type := ttype\<rparr> else L1)
           in if type L2 = Lexer_SKIP then Break True L2
              else if type L2 \<noteq> Lexer_MORE then Break False L2
              else Again L2))"

text \<open>
  Lines 115 to 140, one pass through the body of the inner loop. \<open>ttype\<close> is
  \<open>Lexer.SKIP\<close> when \<open>match\<close> throws a recognition exception; an exception of
  \<open>notifyListeners\<close> or \<open>recover\<close> leaves the \<open>catch\<close> block as it is. Any other
  thrown value \<open>e\<close> is thrown again after \<open>console.log(e.stack)\<close>, unless reading
  \<open>e.stack\<close> throws first.
\<close>

definition inner_round :: "env \<Rightarrow> lexer \<Rightarrow> round" where
  "inner_round E L =
     (let L1 = L\<lparr>type := Token_INVALID_TYPE E\<rparr>
      in case interp_match E (mode L1) L1 of
           (Returned ttype, L2) \<Rightarrow> after_match E ttype L2
         | (Raised e, L2) \<Rightarrow>
             (if instanceof_RecognitionException e then
                (case notifyListeners e L2 of
                   Inl x \<Rightarrow> Throw x L2
                 | Inr L3 \<Rightarrow>
                     (case recover E e L3 of
                        Inl x \<Rightarrow> Throw x L3
                      | Inr L4 \<Rightarrow> after_match E Lexer_SKIP L4))
              else (case read_stack e of
                      Inl x \<Rightarrow> Throw x L2
                    | Inr u \<Rightarrow> Throw e L2)))"

text \<open>
  The inner loop (lines 114 to 141). It may run forever, so it is a partial function:
  \<open>None\<close> means that it does not return. It never returns \<open>Again\<close>.
\<close>

partial_function (option) inner_loop :: "env \<Rightarrow> lexer \<Rightarrow> round option" where
  "inner_loop E L =
     (case inner_round E L of
        Again s \<Rightarrow> inner_loop E s
      | Break c s \<Rightarrow> Some (Break c s)
      | Throw e s \<Rightarrow> Some (Throw e s))"

declare inner_loop.simps [code]

text \<open>
  Lines 145 to 148, the end of the outer loop's body: the default emission when no rule
  action has set \<open>_token\<close>, and the return of \<open>_token\<close>.
\<close>

definition finish_token :: "lexer \<Rightarrow> (exn + token) \<times> lexer" where
  "finish_token L =
     (case token L of
        None \<Rightarrow> (case emit L of Inl e \<Rightarrow> (Inl e, L) | Inr (t, L1) \<Rightarrow> (Inr t, L1))
      | Some t \<Rightarrow> (Inr t, L))"

text \<open>
  The outer loop (lines 102 to 149): the thrown exception or the returned token, and
  the state at that point.
\<close>

partial_function (option) outer_loop :: "env \<Rightarrow> lexer \<Rightarrow> ((exn + token) \<times> lexer) option" where
  "outer_loop E L =
     (if hitEOF L then
        (case emitEOF E L of
           Inl e \<Rightarrow> Some (Inl e, L)
         | Inr (t, L1) \<Rightarrow> Some (Inr t, L1))
      else
        (case begin_token E L of
           Inl (e, L1) \<Rightarrow> Some (Inl e, L1)
         | Inr L1 \<Rightarrow>
             (case inner_loop E L1 of
                None \<Rightarrow> None
              | Some (Again s) \<Rightarrow> None
              | Some (Throw e s) \<Rightarrow> Some (Inl e, s)
              | Some (Break continueOuter s) \<Rightarrow>
                  (if continueOuter then outer_loop E s else Some (finish_token s)))))"

declare outer_loop.simps [code]

text \<open>
  The \<open>finally\<close> block (lines 150 to 154) after the loop has been left with \<open>r\<close>: an
  exception thrown in it replaces \<open>r\<close>.
\<close>

definition release_marker :: "nat \<Rightarrow> (exn + token) \<times> lexer \<Rightarrow> (exn + token) \<times> lexer" where
  "release_marker tokenStartMarker r =
     (case r of
        (v, L) \<Rightarrow>
          (case input L of
             None \<Rightarrow> (Inl (TypeError ''release''), L)
           | Some st \<Rightarrow> (v, L\<lparr>input := Some (stream_release tokenStartMarker st)\<rparr>)))"

text \<open>\<open>nextToken()\<close> (lines 91 to 155).\<close>

definition nextToken :: "env \<Rightarrow> lexer \<Rightarrow> ((exn + token) \<times> lexer) option" where
  "nextToken E L =
     (case input L of
        None \<Rightarrow> Some (Inl (Thrown ''nextToken requires a non-null input stream.''), L)
      | Some st \<Rightarrow>
          (case stream_mark st of
             (tokenStartMarker, st1) \<Rightarrow>
               map_option (release_marker tokenStartMarker) (outer_loop E (L\<lparr>input := Some st1\<rparr>))))"

subsection \<open>getAllTokens\<close>

text \<open>
  The loop of \<open>getAllTokens()\<close> (lines 243 to 246), from the token \<open>t\<close> that the last
  call of \<open>nextToken\<close> returned. \<open>Array.push\<close> appends at the end.
\<close>

partial_function (option) getAllTokens_loop ::
  "env \<Rightarrow> token list \<Rightarrow> token \<Rightarrow> lexer \<Rightarrow> ((exn + token list) \<times> lexer) option" where
  "getAllTokens_loop E tokens t L =
     (if tok_type t \<noteq> Token_EOF E then
        (case nextToken E L of
           None \<Rightarrow> None
         | Some (Inl e, L1) \<Rightarrow> Some (Inl e, L1)
         | Some (Inr t1, L1) \<Rightarrow> getAllTokens_loop E (tokens @ [t]) t1 L1)
      else Some (Inr tokens, L))"

declare getAllTokens_loop.simps [code]

text \<open>\<open>getAllTokens()\<close> (lines 240 to 248).\<close>

definition getAllTokens :: "env \<Rightarrow> lexer \<Rightarrow> ((exn + token list) \<times> lexer) option" where
  "getAllTokens E L =
     (case nextToken E L of
        None \<Rightarrow> None
      | Some (Inl e, L1) \<Rightarrow> Some (Inl e, L1)
      | Some (Inr t, L1) \<Rightarrow> getAllTokens_loop E [] t L1)"

section \<open>Vocabulary for the properties\<close>

subsection \<open>Rounds, attempts and successive calls\<close>

text \<open>
  The state at the top of the inner loop after \<open>n\<close> passes through its body that each
  ended with the type \<open>Lexer.MORE\<close>, so that the loop went round again.
\<close>

fun more_rounds :: "env \<Rightarrow> nat \<Rightarrow> lexer \<Rightarrow> lexer option" where
  "more_rounds E 0 L = Some L"
| "more_rounds E (Suc n) L =
     (case inner_round E L of
        Again s \<Rightarrow> more_rounds E n s
      | Break c s \<Rightarrow> None
      | Throw e s \<Rightarrow> None)"

text \<open>
  The state at the top of the outer loop after \<open>n\<close> passes through its body that each
  ended in \<open>continue\<close>, because the inner loop was left with the type \<open>Lexer.SKIP\<close>.
\<close>

fun skip_rounds :: "env \<Rightarrow> nat \<Rightarrow> lexer \<Rightarrow> lexer option" where
  "skip_rounds E 0 L = Some L"
| "skip_rounds E (Suc n) L =
     (if hitEOF L then None
      else (case begin_token E L of
              Inl x \<Rightarrow> None
            | Inr L1 \<Rightarrow>
                (case inner_loop E L1 of
                   Some (Break True s) \<Rightarrow> skip_rounds E n s
                 | _ \<Rightarrow> None)))"

text \<open>
  The state in which a call of \<open>nextToken\<close> on \<open>L\<close> is at the top of its outer loop
  after \<open>k\<close> skipped attempts: the marker is taken first.
\<close>

definition loop_top :: "env \<Rightarrow> nat \<Rightarrow> lexer \<Rightarrow> lexer option" where
  "loop_top E k L =
     (case input L of
        None \<Rightarrow> None
      | Some st \<Rightarrow> skip_rounds E k (L\<lparr>input := Some (snd (stream_mark st))\<rparr>))"

text \<open>
  The state in which that call enters the inner loop for its attempt number \<open>k + 1\<close>:
  end of input has not been hit, and the new token has been started.
\<close>

definition attempt_start :: "env \<Rightarrow> nat \<Rightarrow> lexer \<Rightarrow> lexer option" where
  "attempt_start E k L =
     (case loop_top E k L of
        None \<Rightarrow> None
      | Some L0 \<Rightarrow>
          (if hitEOF L0 then None
           else (case begin_token E L0 of Inl x \<Rightarrow> None | Inr L1 \<Rightarrow> Some L1)))"

text \<open>
  \<open>n\<close> successive calls of \<open>nextToken\<close>: the tokens they return, in this order, or the
  first exception.
\<close>

fun nextToken_times :: "env \<Rightarrow> nat \<Rightarrow> lexer \<Rightarrow> ((exn + token list) \<times> lexer) option" where
  "nextToken_times E 0 L = Some (Inr [], L)"
| "nextToken_times E (Suc n) L =
     (case nextToken E L of
        None \<Rightarrow> None
      | Some (Inl e, L1) \<Rightarrow> Some (Inl e, L1)
      | Some (Inr t, L1) \<Rightarrow>
          (case nextToken_times E n L1 of
             None \<Rightarrow> None
           | Some (Inl e, L2) \<Rightarrow> Some (Inl e, L2)
           | Some (Inr ts, L2) \<Rightarrow> Some (Inr (t # ts), L2)))"

subsection \<open>What is asked of an interpreter\<close>

text \<open>
  The interpreter leaves the start of the token alone: the fields \<open>_tokenStartCharIndex\<close>,
  \<open>_tokenStartLine\<close> and \<open>_tokenStartColumn\<close> are written by \<open>nextToken\<close> and
  \<open>reset\<close> only.
\<close>

definition keeps_tokenStart :: "env \<Rightarrow> bool" where
  "keeps_tokenStart E \<longleftrightarrow>
     (\<forall>m L. tokenStartCharIndex (snd (interp_match E m L)) = tokenStartCharIndex L
          \<and> tokenStartLine (snd (interp_match E m L)) = tokenStartLine L
          \<and> tokenStartColumn (snd (interp_match E m L)) = tokenStartColumn L)"

text \<open>
  The interpreter emits nothing itself: no rule action calls the token factory or sets
  \<open>_token\<close>, so that emission is left to the driver.
\<close>

definition leaves_emission :: "env \<Rightarrow> bool" where
  "leaves_emission E \<longleftrightarrow>
     (\<forall>m L. factory_created (snd (interp_match E m L)) = factory_created L
          \<and> token (snd (interp_match E m L)) = token L)"

text \<open>The number of characters from the position of the stream to its end.\<close>

definition remaining :: "lexer \<Rightarrow> nat" where
  "remaining L = (case input L of None \<Rightarrow> 0 | Some st \<Rightarrow> nat (int (length (data st)) - index st))"

text \<open>The next character of lookahead is the end-of-input sentinel (or there is no stream).\<close>

definition at_end :: "env \<Rightarrow> lexer \<Rightarrow> bool" where
  "at_end E L = (case input L of None \<Rightarrow> True | Some st \<Rightarrow> LA1 (Token_EOF E) st = Token_EOF E)"

text \<open>After a match with outcome \<open>r\<close> the type of the round is \<open>Lexer.MORE\<close>.\<close>

definition wants_more :: "env \<Rightarrow> match_outcome \<Rightarrow> lexer \<Rightarrow> bool" where
  "wants_more E r L =
     (type L = Lexer_MORE \<or> (type L = Token_INVALID_TYPE E \<and> r = Returned Lexer_MORE))"

text \<open>
  The interpreter makes progress: a match, which the inner loop always enters with the
  type reset to \<open>Token.INVALID_TYPE\<close>, never moves the stream away from its end; it
  moves it towards the end whenever it asks for more, and whenever it returns with
  characters left.
\<close>

definition makes_progress :: "env \<Rightarrow> bool" where
  "makes_progress E \<longleftrightarrow>
     (\<forall>m L. type L = Token_INVALID_TYPE E \<longrightarrow>
        (case interp_match E m L of
           (r, L1) \<Rightarrow>
             remaining L1 \<le> remaining L
             \<and> ((wants_more E r L1 \<or> ((\<exists>t. r = Returned t) \<and> \<not> at_end E L1))
                  \<longrightarrow> remaining L1 < remaining L)))"

text \<open>
  A bound on the rounds still to come: twice the characters left, and one more as long
  as end of input has not been hit.
\<close>

definition work_left :: "lexer \<Rightarrow> nat" where
  "work_left L = 2 * remaining L + (if hitEOF L then 0 else 1)"

section \<open>Two small interpreters\<close>

text \<open>
  A one-character interpreter: at the end of input it returns the type \<open>- 1\<close>; a space
  is skipped; a double quote asks for more; a lower-case letter is a token of type \<open>1\<close>;
  on \<open>!\<close> a rule action throws a string and on \<open>?\<close> one throws \<open>null\<close>; on
  \<open>#\<close> a rule fails after it has matched; after
  \<open>$\<close> no rule can go on, which shows one character later; nothing matches any other
  character. It keeps the column up to date.
\<close>

definition toy_advance :: "lexer \<Rightarrow> lexer" where
  "toy_advance L =
     (case input L of
        None \<Rightarrow> L
      | Some st \<Rightarrow> L\<lparr>input := Some (st\<lparr>index := index st + 1\<rparr>),
                     interp_column := interp_column L + 1\<rparr>)"

definition toy_match :: "int \<Rightarrow> lexer \<Rightarrow> match_outcome \<times> lexer" where
  "toy_match m L =
     (case input L of
        None \<Rightarrow> (Raised (TypeError ''LA''), L)
      | Some st \<Rightarrow>
          (let c = LA1 (- 1) st
           in if c = - 1 then (Returned (- 1), L)
              else if c = 32 then (Returned Lexer_SKIP, toy_advance L)
              else if c = 34 then (Returned Lexer_MORE, toy_advance L)
              else if 97 \<le> c \<and> c \<le> 122 then (Returned 1, toy_advance L)
              else if c = 33 then (Raised (Thrown ''action failed''), L)
              else if c = 63 then (Raised ThrownNull, L)
              else if c = 35 then (Raised (RecognitionException ''predicate failed''), L)
              else if c = 36 then (Raised (LexerNoViableAltException ''no viable alternative''), toy_advance L)
              else (Raised (LexerNoViableAltException ''no viable alternative''), L)))"

definition toy_track :: "int \<Rightarrow> int \<times> int \<Rightarrow> int \<times> int" where
  "toy_track c p = (if c = 10 then (fst p + 1, 0) else (fst p, snd p + 1))"

definition toy :: env where
  "toy = \<lparr>Token_EOF = - 1, Token_INVALID_TYPE = 0, Token_DEFAULT_CHANNEL = 0,
          interp_match = toy_match, interp_track = toy_track, interp_home = (1, 0)\<rparr>"

definition toy_stream :: "string \<Rightarrow> char_stream" where
  "toy_stream s = \<lparr>ident = 7, data = s, index = 0, issued = 0, marks = []\<rparr>"

text \<open>
  An interpreter whose only rule matches the empty string: it returns the type \<open>1\<close> and
  consumes nothing.
\<close>

definition empty_match :: "int \<Rightarrow> lexer \<Rightarrow> match_outcome \<times> lexer" where
  "empty_match m L = (Returned 1, L)"

definition empty_rule :: env where
  "empty_rule = \<lparr>Token_EOF = - 1, Token_INVALID_TYPE = 0, Token_DEFAULT_CHANNEL = 0,
          interp_match = empty_match, interp_track = toy_track, interp_home = (1, 0)\<rparr>"

text \<open>Drivers of the one-character interpreter on sample inputs.\<close>

definition ab :: lexer where "ab = Lexer toy (Some (toy_stream ''ab''))"

definition quoted :: lexer where "quoted = Lexer toy (Some (toy_stream '' \"\"ab''))"

definition space_a :: lexer where "space_a = Lexer toy (Some (toy_stream '' a''))"

definition space_only :: lexer where "space_only = Lexer toy (Some (toy_stream '' ''))"

definition letter_a :: lexer where "letter_a = Lexer toy (Some (toy_stream ''a''))"

definition percent :: lexer where "percent = Lexer toy (Some (toy_stream ''%a''))"

definition hash :: lexer where "hash = Lexer toy (Some (toy_stream ''#a''))"

definition dollar :: lexer where "dollar = Lexer toy (Some (toy_stream ''$''))"

definition question :: lexer where "question = Lexer toy (Some (toy_stream ''?''))"

text \<open>
  The driver on \<open>?\<close> when its first call of \<open>nextToken\<close> enters the inner loop: the
  marker \<open>0\<close> is taken and the token starts at index \<open>0\<close>, line \<open>1\<close>, column \<open>0\<close>.
\<close>

definition question_started :: lexer where
  "question_started =
     question\<lparr>input := Some ((toy_stream ''?'')\<lparr>issued := 1, marks := [0]\<rparr>),
              tokenStartCharIndex := 0, tokenStartColumn := 0, tokenStartLine := 1\<rparr>"

definition quote_bang :: lexer where "quote_bang = Lexer toy (Some (toy_stream ''\"!''))"

text \<open>A driver of the interpreter with the empty rule.\<close>

definition stuck :: lexer where "stuck = Lexer empty_rule (Some (toy_stream ''b''))"

section \<open>Lemmas about the loops\<close>

subsection \<open>Steps of the loops\<close>

text \<open>
  Rounds that ask for more, and attempts that are skipped, are steps of the loops: the
  loop started before them behaves as the loop started after them.
\<close>

lemma more_rounds_inner_loop:
  "more_rounds E n L = Some s \<Longrightarrow> inner_loop E L = inner_loop E s"
proof (induction n arbitrary: L)
  case 0
  then show ?case by simp
next
  case (Suc n)
  then obtain L' where r: "inner_round E L = Again L'" and m: "more_rounds E n L' = Some s"
    by (auto split: round.splits)
  have "inner_loop E L = inner_loop E L'"
    by (subst inner_loop.simps) (simp add: r)
  with Suc.IH [OF m] show ?case by simp
qed

lemma skip_rounds_outer_loop:
  "skip_rounds E n L = Some s \<Longrightarrow> outer_loop E L = outer_loop E s"
proof (induction n arbitrary: L)
  case 0
  then show ?case by simp
next
  case (Suc n)
  then obtain L1 L' where h: "\<not> hitEOF L" and b: "begin_token E L = Inr L1"
    and i: "inner_loop E L1 = Some (Break True L')" and m: "skip_rounds E n L' = Some s"
    by (auto split: if_splits sum.splits option.splits round.splits bool.splits)
  have "outer_loop E L = outer_loop E L'"
    by (subst outer_loop.simps) (simp add: h b i)
  with Suc.IH [OF m] show ?case by simp
qed

lemma skip_rounds_Suc:
  assumes "skip_rounds E k M = Some L0" and "\<not> hitEOF L0" and "begin_token E L0 = Inr L1"
    and "inner_loop E L1 = Some (Break True s)"
  shows "skip_rounds E (Suc k) M = Some s"
  using assms
proof (induction k arbitrary: M)
  case 0
  then show ?case by simp
next
  case (Suc k)
  from Suc.prems(1) obtain M1 M' where h: "\<not> hitEOF M" and b: "begin_token E M = Inr M1"
    and i: "inner_loop E M1 = Some (Break True M')" and m: "skip_rounds E k M' = Some L0"
    by (auto split: if_splits sum.splits option.splits round.splits bool.splits)
  from Suc.IH [OF m Suc.prems(2,3,4)] have "skip_rounds E (Suc k) M' = Some s" .
  with h b i show ?case by (simp del: skip_rounds.simps add: skip_rounds.simps(2) [of E "Suc k" M])
qed

lemma inner_loop_last_round:
  assumes "more_rounds E n L1 = Some sn" and "inner_round E sn = Break c s"
  shows "inner_loop E L1 = Some (Break c s)"
proof -
  have "inner_loop E sn = Some (Break c s)"
    by (subst inner_loop.simps) (simp add: assms(2))
  with more_rounds_inner_loop [OF assms(1)] show ?thesis by simp
qed

lemma inner_loop_Throw_round:
  assumes "more_rounds E n L1 = Some sn" and "inner_round E sn = Throw e s"
  shows "inner_loop E L1 = Some (Throw e s)"
proof -
  have "inner_loop E sn = Some (Throw e s)"
    by (subst inner_loop.simps) (simp add: assms(2))
  with more_rounds_inner_loop [OF assms(1)] show ?thesis by simp
qed

lemma inner_round_unexpected:
  assumes "interp_match E (mode L) (L\<lparr>type := Token_INVALID_TYPE E\<rparr>) = (Raised e, s)"
    and "\<not> instanceof_RecognitionException e"
  shows "inner_round E L = (case read_stack e of Inl x \<Rightarrow> Throw x s | Inr u \<Rightarrow> Throw e s)"
  using assms by (simp add: inner_round_def)

subsection \<open>How a round ends\<close>

text \<open>
  The rest of a round after the match: it throws only when the stream is gone, it leaves
  the stream alone, and the type it ends with decides how the loop goes on.
\<close>

lemma after_match_Break:
  "after_match E t L = Break c s \<Longrightarrow> c = (type s = Lexer_SKIP)"
  by (auto simp: after_match_def Let_def split: option.splits if_splits)

lemma inner_round_Break:
  "inner_round E L = Break c s \<Longrightarrow> c = (type s = Lexer_SKIP)"
  by (auto simp: inner_round_def Let_def split: prod.splits match_outcome.splits if_splits sum.splits dest: after_match_Break)

lemma inner_loop_result:
  assumes "inner_loop E L = Some r"
  shows "(\<exists>c s. r = Break c s \<and> c = (type s = Lexer_SKIP)) \<or> (\<exists>e s. r = Throw e s)"
  using assms
proof (induction rule: inner_loop.raw_induct [rotated, consumes 1, case_names step])
  case (step f E L r)
  show ?case
  proof (cases "inner_round E L")
    case (Again s)
    with step show ?thesis by simp
  next
    case (Break c s)
    with step inner_round_Break [OF Break] show ?thesis by auto
  next
    case (Throw e s)
    with step show ?thesis by auto
  qed
qed

lemma after_match_Break_False:
  "after_match E t L = Break False s \<Longrightarrow> type s \<noteq> Lexer_SKIP \<and> type s \<noteq> Lexer_MORE"
  by (auto simp: after_match_def Let_def split: option.splits if_splits)

lemma inner_round_Break_False:
  "inner_round E L = Break False s \<Longrightarrow> type s \<noteq> Lexer_SKIP \<and> type s \<noteq> Lexer_MORE"
  by (auto simp: inner_round_def Let_def split: prod.splits match_outcome.splits if_splits sum.splits
      dest: after_match_Break_False)

lemma inner_loop_Break_False:
  assumes "inner_loop E L = Some (Break False s)"
  shows "type s \<noteq> Lexer_SKIP \<and> type s \<noteq> Lexer_MORE"
  using assms
proof (induction E L "Break False s" rule: inner_loop.raw_induct [rotated, consumes 1, case_names step])
  case (step f E L)
  then show ?case
    by (cases "inner_round E L") (auto dest: inner_round_Break_False)
qed

lemma after_match_Some:
  assumes "input L = Some st"
  shows "\<exists>s. (after_match E t L = Again s \<or> (\<exists>c. after_match E t L = Break c s))
           \<and> input s = Some st
           \<and> hitEOF s = (hitEOF L \<or> LA1 (Token_EOF E) st = Token_EOF E)
           \<and> type s = (if type L = Token_INVALID_TYPE E then t else type L)"
  using assms by (auto simp: after_match_def Let_def)

lemma after_match_Again:
  "after_match E t L = Again s \<Longrightarrow> type s = Lexer_MORE \<and> type s \<noteq> Lexer_SKIP"
  by (auto simp: after_match_def Let_def split: option.splits if_splits)

lemma after_match_input:
  assumes "after_match E t L = Again s \<or> after_match E t L = Break c s"
  shows "\<exists>st. input L = Some st \<and> input s = Some st
           \<and> hitEOF s = (hitEOF L \<or> LA1 (Token_EOF E) st = Token_EOF E)
           \<and> type s = (if type L = Token_INVALID_TYPE E then t else type L)"
proof (cases "input L")
  case None
  with assms show ?thesis by (simp add: after_match_def)
next
  case (Some st)
  from after_match_Some [OF Some, of E t] assms Some show ?thesis by auto
qed

lemma after_match_no_Throw:
  "input L \<noteq> None \<Longrightarrow> after_match E t L \<noteq> Throw x s"
  by (auto simp: after_match_def Let_def split: if_splits)

subsection \<open>The start of the token\<close>

text \<open>
  The driver writes the start fields at the top of the outer loop only; with an
  interpreter that leaves them alone they are the same when the inner loop is left.
\<close>

lemma after_match_tokenStart:
  "after_match E t L = r \<Longrightarrow> r = Again s \<or> r = Break c s \<or> r = Throw e s \<Longrightarrow>
   tokenStartCharIndex s = tokenStartCharIndex L \<and> tokenStartLine s = tokenStartLine L
   \<and> tokenStartColumn s = tokenStartColumn L"
  by (auto simp: after_match_def Let_def split: option.splits if_splits)

lemma notifyListeners_tokenStart:
  "notifyListeners e L = Inr s \<Longrightarrow>
   tokenStartCharIndex s = tokenStartCharIndex L \<and> tokenStartLine s = tokenStartLine L
   \<and> tokenStartColumn s = tokenStartColumn L"
  by (auto simp: notifyListeners_def syntaxError_def Let_def split: option.splits)

lemma recover_tokenStart:
  "recover E e L = Inr s \<Longrightarrow>
   tokenStartCharIndex s = tokenStartCharIndex L \<and> tokenStartLine s = tokenStartLine L
   \<and> tokenStartColumn s = tokenStartColumn L"
  by (auto simp: recover_def interp_consume_def Let_def split: option.splits if_splits sum.splits prod.splits)

lemma keeps_tokenStartD:
  assumes "keeps_tokenStart E" and "interp_match E m L = (r, L2)"
  shows "tokenStartCharIndex L2 = tokenStartCharIndex L \<and> tokenStartLine L2 = tokenStartLine L
   \<and> tokenStartColumn L2 = tokenStartColumn L"
proof -
  have "snd (interp_match E m L) = L2" using assms(2) by simp
  with assms(1) show ?thesis unfolding keeps_tokenStart_def by blast
qed

lemma inner_round_tokenStart:
  assumes k: "keeps_tokenStart E" and r: "inner_round E L = r" "r = Again s \<or> r = Break c s"
  shows "tokenStartCharIndex s = tokenStartCharIndex L \<and> tokenStartLine s = tokenStartLine L
   \<and> tokenStartColumn s = tokenStartColumn L"
proof -
  obtain o' L2 where m: "interp_match E (mode L) (L\<lparr>type := Token_INVALID_TYPE E\<rparr>) = (o', L2)"
    by (cases "interp_match E (mode L) (L\<lparr>type := Token_INVALID_TYPE E\<rparr>)")
  from keeps_tokenStartD [OF k m]
  have k2: "tokenStartCharIndex L2 = tokenStartCharIndex L \<and> tokenStartLine L2 = tokenStartLine L
   \<and> tokenStartColumn L2 = tokenStartColumn L"
    by simp
  show ?thesis
  proof (cases o')
    case (Returned t)
    with m r have "after_match E t L2 = r" by (simp add: inner_round_def)
    from after_match_tokenStart [OF this, of s c] r(2) k2 show ?thesis by auto
  next
    case (Raised e)
    show ?thesis
    proof (cases "instanceof_RecognitionException e")
      case False
      with m r Raised show ?thesis by (auto simp: inner_round_def split: sum.splits)
    next
      case True
      with m r Raised obtain L3 L4 where n: "notifyListeners e L2 = Inr L3"
        and c: "recover E e L3 = Inr L4" and a: "after_match E Lexer_SKIP L4 = r"
        by (auto simp: inner_round_def split: sum.splits)
      from after_match_tokenStart [OF a, of s c] r(2) notifyListeners_tokenStart [OF n]
        recover_tokenStart [OF c] k2 show ?thesis by auto
    qed
  qed
qed

lemma inner_loop_tokenStart:
  assumes "inner_loop E L = Some (Break c s)" and "keeps_tokenStart E"
  shows "tokenStartCharIndex s = tokenStartCharIndex L \<and> tokenStartLine s = tokenStartLine L
   \<and> tokenStartColumn s = tokenStartColumn L"
  using assms
proof (induction E L "Break c s" rule: inner_loop.raw_induct [rotated, consumes 1, case_names step])
  case (step f E L)
  show ?case
  proof (cases "inner_round E L")
    case (Again s')
    with step have "f E s' = Some (Break c s)" by simp
    from step(1) [OF this step(3)] inner_round_tokenStart [OF step(3) Again, of s' c]
    show ?thesis by simp
  next
    case (Break c' s')
    with step have "c' = c" "s' = s" by simp_all
    with inner_round_tokenStart [OF step(3) Break, of s c] show ?thesis by simp
  next
    case (Throw e s')
    with step show ?thesis by simp
  qed
qed

subsection \<open>One call of nextToken\<close>

text \<open>
  A call takes the marker, runs the outer loop and releases the marker. What it returns
  is settled by the attempt that is not skipped.
\<close>

lemma nextToken_unfold:
  "input L = Some st \<Longrightarrow>
   nextToken E L = map_option (release_marker (issued st))
                     (outer_loop E (L\<lparr>input := Some (snd (stream_mark st))\<rparr>))"
  by (simp add: nextToken_def stream_mark_def)

lemma nextToken_loop_top:
  assumes "input L = Some st" and "loop_top E k L = Some L0"
  shows "nextToken E L = map_option (release_marker (issued st)) (outer_loop E L0)"
proof -
  from assms have "skip_rounds E k (L\<lparr>input := Some (snd (stream_mark st))\<rparr>) = Some L0"
    by (simp add: loop_top_def)
  from skip_rounds_outer_loop [OF this] nextToken_unfold [OF assms(1)] show ?thesis by simp
qed

lemma attempt_startD:
  assumes "attempt_start E k L = Some L1"
  obtains L0 where "loop_top E k L = Some L0" and "\<not> hitEOF L0" and "begin_token E L0 = Inr L1"
  using assms by (auto simp: attempt_start_def split: option.splits if_splits sum.splits)

lemma begin_token_Inr:
  assumes "begin_token E L0 = Inr L1"
  obtains st1 where "input L0 = Some st1" and
    "L1 = L0\<lparr>token := None, channel := Token_DEFAULT_CHANNEL E, tokenStartCharIndex := index st1,
              tokenStartColumn := interp_column L0, tokenStartLine := interp_line L0, text' := None\<rparr>"
  using assms by (auto simp: begin_token_def Let_def split: option.splits)

lemma attempt_start_captured:
  assumes a: "attempt_start E k L = Some L1"
  shows "\<exists>st1. input L1 = Some st1 \<and> tokenStartCharIndex L1 = index st1
         \<and> tokenStartLine L1 = interp_line L1 \<and> tokenStartColumn L1 = interp_column L1
         \<and> token L1 = None \<and> text' L1 = None \<and> channel L1 = Token_DEFAULT_CHANNEL E"
proof -
  from a obtain L0 where b: "begin_token E L0 = Inr L1" by (rule attempt_startD)
  from b show ?thesis by (rule begin_token_Inr) simp
qed

lemma loop_top_Suc:
  assumes "attempt_start E k L = Some L1" and "inner_loop E L1 = Some (Break True s)"
  shows "loop_top E (Suc k) L = Some s"
proof -
  from assms(1) obtain L0 where top: "loop_top E k L = Some L0" and h: "\<not> hitEOF L0"
    and b: "begin_token E L0 = Inr L1"
    by (rule attempt_startD)
  from top obtain st where i: "input L = Some st"
    and r: "skip_rounds E k (L\<lparr>input := Some (snd (stream_mark st))\<rparr>) = Some L0"
    by (auto simp: loop_top_def split: option.splits)
  from skip_rounds_Suc [OF r h b assms(2)] i show ?thesis
    by (simp add: loop_top_def)
qed

lemma emit_Some:
  assumes "input s = Some st'"
    and "t = \<lparr>tok_source = tokenFactorySourcePair s, tok_type = type s, tok_text = text' s,
            tok_channel = channel s, tok_start = tokenStartCharIndex s, tok_stop = index st' - 1,
            tok_line = tokenStartLine s, tok_column = tokenStartColumn s\<rparr>"
  shows "emit s = Inr (t, s\<lparr>factory_created := t # factory_created s, token := Some t\<rparr>)"
  using assms by (simp add: emit_def getCharIndex_def factory_create_def emitToken_def Let_def)

lemma default_emission:
  assumes i: "input L = Some st"
    and a: "attempt_start E k L = Some L1"
    and l: "inner_loop E L1 = Some (Break False s)"
    and n: "token s = None"
    and s: "input s = Some st'"
    and t: "t = \<lparr>tok_source = tokenFactorySourcePair s, tok_type = type s, tok_text = text' s,
            tok_channel = channel s, tok_start = tokenStartCharIndex s, tok_stop = index st' - 1,
            tok_line = tokenStartLine s, tok_column = tokenStartColumn s\<rparr>"
  shows "nextToken E L =
     Some (Inr t, s\<lparr>factory_created := t # factory_created s, token := Some t,
                     input := Some (stream_release (issued st) st')\<rparr>)"
proof -
  from a obtain L0 where top: "loop_top E k L = Some L0" and h: "\<not> hitEOF L0"
    and b: "begin_token E L0 = Inr L1"
    by (rule attempt_startD)
  have "outer_loop E L0 = Some (finish_token s)"
    by (subst outer_loop.simps) (simp add: h b l)
  with nextToken_loop_top [OF i top]
  have "nextToken E L = Some (release_marker (issued st) (finish_token s))" by simp
  then show ?thesis
    by (simp add: finish_token_def n emit_Some [OF s t] release_marker_def s)
qed

lemma emitEOF_Some:
  assumes "input L = Some st"
    and "t = \<lparr>tok_source = tokenFactorySourcePair L, tok_type = Token_EOF E, tok_text = None,
                tok_channel = Token_DEFAULT_CHANNEL E, tok_start = index st, tok_stop = index st - 1,
                tok_line = interp_line L, tok_column = interp_column L\<rparr>"
  shows "emitEOF E L = Inr (t, L\<lparr>factory_created := t # factory_created L, token := Some t\<rparr>)"
  using assms by (simp add: emitEOF_def factory_create_def emitToken_def Let_def)

lemma outer_loop_hitEOF:
  assumes "hitEOF L" and "input L = Some st"
    and "t = \<lparr>tok_source = tokenFactorySourcePair L, tok_type = Token_EOF E, tok_text = None,
                tok_channel = Token_DEFAULT_CHANNEL E, tok_start = index st, tok_stop = index st - 1,
                tok_line = interp_line L, tok_column = interp_column L\<rparr>"
  shows "outer_loop E L = Some (Inr t, L\<lparr>factory_created := t # factory_created L, token := Some t\<rparr>)"
  by (subst outer_loop.simps) (simp add: assms(1) emitEOF_Some [OF assms(2,3)])

lemma nextToken_hitEOF:
  assumes "hitEOF L" and "input L = Some st"
    and "t = \<lparr>tok_source = tokenFactorySourcePair L, tok_type = Token_EOF E, tok_text = None,
                tok_channel = Token_DEFAULT_CHANNEL E, tok_start = index st, tok_stop = index st - 1,
                tok_line = interp_line L, tok_column = interp_column L\<rparr>"
  shows "nextToken E L =
     Some (Inr t, L\<lparr>factory_created := t # factory_created L, token := Some t,
                     input := Some (st\<lparr>issued := Suc (issued st),
                                        marks := removeAll (issued st) (marks st)\<rparr>)\<rparr>)"
proof -
  let ?M = "L\<lparr>input := Some (snd (stream_mark st))\<rparr>"
  have "outer_loop E ?M =
      Some (Inr t, ?M\<lparr>factory_created := t # factory_created ?M, token := Some t\<rparr>)"
    by (rule outer_loop_hitEOF [where st = "snd (stream_mark st)"])
       (simp_all add: assms stream_mark_def)
  with nextToken_unfold [OF assms(2), of E] show ?thesis
    by (simp add: release_marker_def stream_mark_def stream_release_def)
qed

lemma nextToken_times_hitEOF:
  assumes "hitEOF L" and "input L = Some st"
    and "t = \<lparr>tok_source = tokenFactorySourcePair L, tok_type = Token_EOF E, tok_text = None,
                tok_channel = Token_DEFAULT_CHANNEL E, tok_start = index st, tok_stop = index st - 1,
                tok_line = interp_line L, tok_column = interp_column L\<rparr>"
  shows "\<exists>Ln stn. nextToken_times E n L = Some (Inr (replicate n t), Ln)
           \<and> factory_created Ln = replicate n t @ factory_created L
           \<and> hitEOF Ln \<and> input Ln = Some stn \<and> index stn = index st"
  using assms
proof (induction n arbitrary: L st)
  case 0
  then show ?case by simp
next
  case (Suc n)
  let ?L1 = "L\<lparr>factory_created := t # factory_created L, token := Some t,
                     input := Some (st\<lparr>issued := Suc (issued st),
                                        marks := removeAll (issued st) (marks st)\<rparr>)\<rparr>"
  have one: "nextToken E L = Some (Inr t, ?L1)"
    using Suc.prems by (rule nextToken_hitEOF)
  have "\<exists>Ln stn. nextToken_times E n ?L1 = Some (Inr (replicate n t), Ln)
           \<and> factory_created Ln = replicate n t @ factory_created ?L1
           \<and> hitEOF Ln \<and> input Ln = Some stn
           \<and> index stn = index (st\<lparr>issued := Suc (issued st),
                                        marks := removeAll (issued st) (marks st)\<rparr>)"
    by (rule Suc.IH) (simp_all add: Suc.prems)
  then obtain Ln stn where r: "nextToken_times E n ?L1 = Some (Inr (replicate n t), Ln)"
    and f: "factory_created Ln = replicate n t @ t # factory_created L"
    and h: "hitEOF Ln" "input Ln = Some stn" "index stn = index st"
    by auto
  from one r have "nextToken_times E (Suc n) L = Some (Inr (replicate (Suc n) t), Ln)"
    by simp
  moreover from f have "factory_created Ln = replicate (Suc n) t @ factory_created L"
    by (simp add: replicate_app_Cons_same)
  ultimately show ?case using h by blast
qed

lemma nextToken_Throw:
  assumes i: "input L = Some st"
    and a: "attempt_start E k L = Some L1"
    and l: "inner_loop E L1 = Some (Throw e s)"
    and s: "input s = Some st'"
  shows "nextToken E L = Some (Inl e, s\<lparr>input := Some (stream_release (issued st) st')\<rparr>)"
proof -
  from a obtain L0 where top: "loop_top E k L = Some L0" and h: "\<not> hitEOF L0"
    and b: "begin_token E L0 = Inr L1"
    by (rule attempt_startD)
  have "outer_loop E L0 = Some (Inl e, s)"
    by (subst outer_loop.simps) (simp add: h b l)
  with nextToken_loop_top [OF i top] show ?thesis
    by (simp add: release_marker_def s)
qed

lemma nextToken_released:
  assumes "input L = Some st" and "nextToken E L = Some (r, L')"
  shows "case input L' of
           None \<Rightarrow> r = Inl (TypeError ''release'')
         | Some st' \<Rightarrow> issued st \<notin> set (marks st')"
proof -
  from assms nextToken_unfold [OF assms(1), of E]
  obtain v s where "release_marker (issued st) (v, s) = (r, L')"
    by auto
  then show ?thesis
    by (auto simp: release_marker_def stream_release_def split: option.splits)
qed

subsection \<open>What the driver emits before the end of an attempt\<close>

text \<open>
  Nothing: between the start of a call and the end of an inner loop the driver neither
  calls the token factory nor sets \<open>_token\<close>, except for clearing it when an attempt
  starts. With an interpreter that emits nothing itself, the factory's record is then as
  it was when the call began, and \<open>_token\<close> is \<open>null\<close>.
\<close>

lemma after_match_emission:
  "after_match E t L = r \<Longrightarrow> r = Again s \<or> r = Break c s \<Longrightarrow>
   factory_created s = factory_created L \<and> token s = token L"
  by (auto simp: after_match_def Let_def split: option.splits if_splits)

lemma notifyListeners_emission:
  "notifyListeners e L = Inr s \<Longrightarrow> factory_created s = factory_created L \<and> token s = token L"
  by (auto simp: notifyListeners_def syntaxError_def Let_def split: option.splits)

lemma recover_emission:
  "recover E e L = Inr s \<Longrightarrow> factory_created s = factory_created L \<and> token s = token L"
  by (auto simp: recover_def interp_consume_def Let_def
      split: option.splits if_splits sum.splits prod.splits)

lemma leaves_emissionD:
  assumes "leaves_emission E" and "interp_match E m L = (r, L2)"
  shows "factory_created L2 = factory_created L \<and> token L2 = token L"
proof -
  have "snd (interp_match E m L) = L2" using assms(2) by simp
  with assms(1) show ?thesis unfolding leaves_emission_def by blast
qed

lemma inner_round_emission:
  assumes k: "leaves_emission E" and r: "inner_round E L = r" "r = Again s \<or> r = Break c s"
  shows "factory_created s = factory_created L \<and> token s = token L"
proof -
  obtain o' L2 where m: "interp_match E (mode L) (L\<lparr>type := Token_INVALID_TYPE E\<rparr>) = (o', L2)"
    by (cases "interp_match E (mode L) (L\<lparr>type := Token_INVALID_TYPE E\<rparr>)")
  from leaves_emissionD [OF k m]
  have k2: "factory_created L2 = factory_created L \<and> token L2 = token L"
    by simp
  show ?thesis
  proof (cases o')
    case (Returned t)
    with m r have "after_match E t L2 = r" by (simp add: inner_round_def)
    from after_match_emission [OF this, of s c] r(2) k2 show ?thesis by auto
  next
    case (Raised e)
    show ?thesis
    proof (cases "instanceof_RecognitionException e")
      case False
      with m r Raised show ?thesis by (auto simp: inner_round_def split: sum.splits)
    next
      case True
      with m r Raised obtain L3 L4 where n: "notifyListeners e L2 = Inr L3"
        and c: "recover E e L3 = Inr L4" and a: "after_match E Lexer_SKIP L4 = r"
        by (auto simp: inner_round_def split: sum.splits)
      from after_match_emission [OF a, of s c] r(2) notifyListeners_emission [OF n]
        recover_emission [OF c] k2 show ?thesis by auto
    qed
  qed
qed

lemma more_rounds_emission:
  assumes "more_rounds E n L = Some s" and "leaves_emission E"
  shows "factory_created s = factory_created L \<and> token s = token L"
  using assms
proof (induction n arbitrary: L)
  case 0
  then show ?case by simp
next
  case (Suc n)
  from Suc.prems(1) obtain L' where r: "inner_round E L = Again L'"
    and m: "more_rounds E n L' = Some s"
    by (auto split: round.splits)
  from Suc.IH [OF m Suc.prems(2)] inner_round_emission [OF Suc.prems(2) r, where s = L' and c = True]
  show ?case by simp
qed

lemma inner_loop_emission:
  assumes "inner_loop E L = Some (Break c s)" and "leaves_emission E"
  shows "factory_created s = factory_created L \<and> token s = token L"
  using assms
proof (induction E L "Break c s" rule: inner_loop.raw_induct [rotated, consumes 1, case_names step])
  case (step f E L)
  show ?case
  proof (cases "inner_round E L")
    case (Again s')
    with step have "f E s' = Some (Break c s)" by simp
    from step(1) [OF this step(3)] inner_round_emission [OF step(3) Again, of s' c]
    show ?thesis by simp
  next
    case (Break c' s')
    with step have "c' = c" "s' = s" by simp_all
    with inner_round_emission [OF step(3) Break, of s c] show ?thesis by simp
  next
    case (Throw e s')
    with step show ?thesis by simp
  qed
qed

lemma begin_token_emission:
  "begin_token E L0 = Inr L1 \<Longrightarrow> factory_created L1 = factory_created L0 \<and> token L1 = None"
  by (auto simp: begin_token_def Let_def split: option.splits)

lemma skip_rounds_emission:
  assumes "skip_rounds E n L = Some s" and "leaves_emission E"
  shows "factory_created s = factory_created L"
  using assms
proof (induction n arbitrary: L)
  case 0
  then show ?case by simp
next
  case (Suc n)
  from Suc.prems(1) obtain L1 L' where b: "begin_token E L = Inr L1"
    and i: "inner_loop E L1 = Some (Break True L')" and m: "skip_rounds E n L' = Some s"
    by (auto split: if_splits sum.splits option.splits round.splits bool.splits)
  from Suc.IH [OF m Suc.prems(2)] inner_loop_emission [OF i Suc.prems(2)]
    begin_token_emission [OF b]
  show ?case by simp
qed

lemma attempt_start_emission:
  assumes "attempt_start E k L = Some L1" and "leaves_emission E"
  shows "factory_created L1 = factory_created L \<and> token L1 = None"
proof -
  from assms(1) obtain L0 where top: "loop_top E k L = Some L0"
    and b: "begin_token E L0 = Inr L1"
    by (rule attempt_startD)
  from top obtain st where r: "skip_rounds E k (L\<lparr>input := Some (snd (stream_mark st))\<rparr>) = Some L0"
    by (auto simp: loop_top_def split: option.splits)
  from skip_rounds_emission [OF r assms(2)] begin_token_emission [OF b]
  show ?thesis by simp
qed

subsection \<open>Reporting and recovery, with a stream\<close>

text \<open>
  With a stream attached neither \<open>notifyListeners\<close> nor \<open>recover\<close> throws.
\<close>

lemma getErrorDisplay_id: "getErrorDisplay s = s"
  by (induction s) (simp_all add: getErrorDisplay_def)

lemma notifyListeners_Some:
  assumes "input L2 = Some st"
  shows "notifyListeners e L2 =
     Inr (L2\<lparr>listener_received :=
                (tokenStartLine L2, tokenStartColumn L2,
                 ''token recognition error at: '' @ [CHR 0x27]
                   @ stream_getText (tokenStartCharIndex L2) (index st) st @ [CHR 0x27], e)
                # listener_received L2\<rparr>)"
  using assms by (simp add: notifyListeners_def syntaxError_def getErrorDisplay_id Let_def)

lemma LA1_not_eof:
  "LA1 eof st \<noteq> eof \<Longrightarrow> stream_consume st = Inr (st\<lparr>index := index st + 1\<rparr>)"
  by (simp add: LA1_def stream_consume_def split: if_splits)

lemma recover_Some:
  assumes "input L3 = Some st"
  shows "recover E e L3 =
     Inr (if LA1 (Token_EOF E) st = Token_EOF E then L3
          else if instanceof_LexerNoViableAltException e then
            L3\<lparr>input := Some (st\<lparr>index := index st + 1\<rparr>),
               interp_line := fst (interp_track E (LA1 (Token_EOF E) st) (interp_line L3, interp_column L3)),
               interp_column := snd (interp_track E (LA1 (Token_EOF E) st) (interp_line L3, interp_column L3))\<rparr>
          else L3\<lparr>input := Some (st\<lparr>index := index st + 1\<rparr>)\<rparr>)"
  using assms
  by (auto simp: recover_def interp_consume_def dest!: LA1_not_eof split: prod.splits)

lemma interp_consume_Some:
  assumes "input L3 = Some st" and "LA1 (Token_EOF E) st \<noteq> Token_EOF E"
  shows "interp_consume E L3 =
     Inr (L3\<lparr>input := Some (st\<lparr>index := index st + 1\<rparr>),
               interp_line := fst (interp_track E (LA1 (Token_EOF E) st) (interp_line L3, interp_column L3)),
               interp_column := snd (interp_track E (LA1 (Token_EOF E) st) (interp_line L3, interp_column L3))\<rparr>)"
  using assms
  by (auto simp: interp_consume_def dest!: LA1_not_eof split: prod.splits)

subsection \<open>Termination\<close>

text \<open>
  With an interpreter that makes progress, every round of the inner loop that asks for
  more moves the stream towards its end, and every other round does so or hits the end
  of input. So the loops return, and \<open>work_left\<close> goes down from one call of
  \<open>nextToken\<close> to the next until the end of input is hit.
\<close>

lemma remaining_input: "input s = input L \<Longrightarrow> remaining s = remaining L"
  by (simp add: remaining_def)

lemma recover_remaining:
  assumes "recover E e L3 = Inr L4" and "input L3 = Some st"
  shows "remaining L4 \<le> remaining L3
         \<and> (LA1 (Token_EOF E) st \<noteq> Token_EOF E \<longrightarrow> remaining L4 < remaining L3)
         \<and> (LA1 (Token_EOF E) st = Token_EOF E \<longrightarrow> input L4 = Some st)
         \<and> type L4 = type L3"
proof -
  from assms have "L4 = (if LA1 (Token_EOF E) st = Token_EOF E then L3
          else if instanceof_LexerNoViableAltException e then
            L3\<lparr>input := Some (st\<lparr>index := index st + 1\<rparr>),
               interp_line := fst (interp_track E (LA1 (Token_EOF E) st) (interp_line L3, interp_column L3)),
               interp_column := snd (interp_track E (LA1 (Token_EOF E) st) (interp_line L3, interp_column L3))\<rparr>
          else L3\<lparr>input := Some (st\<lparr>index := index st + 1\<rparr>)\<rparr>)"
    by (simp add: recover_Some)
  with assms(2) show ?thesis
    by (auto simp: remaining_def LA1_def split: if_splits)
qed

lemma makes_progressD:
  assumes "makes_progress E" and "interp_match E m L = (r, L2)" and "type L = Token_INVALID_TYPE E"
  shows "remaining L2 \<le> remaining L"
    and "wants_more E r L2 \<Longrightarrow> remaining L2 < remaining L"
    and "r = Returned t \<Longrightarrow> \<not> at_end E L2 \<Longrightarrow> remaining L2 < remaining L"
  using assms unfolding makes_progress_def by (fastforce split: prod.splits)+

lemma inner_round_progress:
  assumes p: "makes_progress E"
  shows "(inner_round E L = Again s \<longrightarrow> remaining s < remaining L)
       \<and> (inner_round E L = Break c s \<longrightarrow>
            remaining s \<le> remaining L \<and> (hitEOF s \<or> remaining s < remaining L))"
proof -
  let ?L1 = "L\<lparr>type := Token_INVALID_TYPE E\<rparr>"
  obtain r L2 where m: "interp_match E (mode L) ?L1 = (r, L2)"
    by (cases "interp_match E (mode L) ?L1")
  have m': "interp_match E (mode ?L1) ?L1 = (r, L2)" using m by simp
  have ty: "type ?L1 = Token_INVALID_TYPE E" by simp
  have r1: "remaining ?L1 = remaining L" by (simp add: remaining_def)
  note P = makes_progressD [OF p m' ty, unfolded r1]
  show ?thesis
  proof (cases r)
    case (Returned t)
    with m have ir: "inner_round E L = after_match E t L2" by (simp add: inner_round_def)
    have a: "remaining s < remaining L" if "inner_round E L = Again s"
    proof -
      from that ir have am: "after_match E t L2 = Again s" by simp
      from after_match_input [of E t L2 s c] am obtain st where i: "input L2 = Some st"
        "input s = Some st" "type s = (if type L2 = Token_INVALID_TYPE E then t else type L2)"
        by auto
      from after_match_Again [OF am] i(3) Returned have "wants_more E r L2"
        by (auto simp: wants_more_def split: if_splits)
      from P(2) [OF this] i show ?thesis by (simp add: remaining_def)
    qed
    have b: "remaining s \<le> remaining L \<and> (hitEOF s \<or> remaining s < remaining L)"
      if "inner_round E L = Break c s"
    proof -
      from that ir have am: "after_match E t L2 = Break c s" by simp
      from after_match_input [of E t L2 s c] am obtain st where i: "input L2 = Some st"
        "input s = Some st" "hitEOF s = (hitEOF L2 \<or> LA1 (Token_EOF E) st = Token_EOF E)"
        by auto
      have rs: "remaining s = remaining L2" using i by (simp add: remaining_def)
      show ?thesis
      proof (cases "LA1 (Token_EOF E) st = Token_EOF E")
        case True
        with i P(1) rs show ?thesis by simp
      next
        case False
        with i have "\<not> at_end E L2" by (simp add: at_end_def)
        from P(3) [OF Returned this] rs show ?thesis by simp
      qed
    qed
    from a b show ?thesis by blast
  next
    case (Raised e)
    show ?thesis
    proof (cases "instanceof_RecognitionException e")
      case False
      with m Raised show ?thesis by (simp add: inner_round_def split: sum.splits)
    next
      case True
      show ?thesis
      proof (cases "input L2")
        case None
        with m Raised True show ?thesis
          by (simp add: inner_round_def notifyListeners_def)
      next
        case (Some st)
        define L3 where "L3 = L2\<lparr>listener_received :=
                    (tokenStartLine L2, tokenStartColumn L2,
                     ''token recognition error at: '' @ [CHR 0x27]
                       @ stream_getText (tokenStartCharIndex L2) (index st) st @ [CHR 0x27], e)
                    # listener_received L2\<rparr>"
        have n: "notifyListeners e L2 = Inr L3"
          unfolding L3_def using Some by (rule notifyListeners_Some)
        have i3: "input L3 = Some st" and t3: "type L3 = type L2"
          and r3: "remaining L3 = remaining L2"
          using Some by (simp_all add: L3_def remaining_def)
        obtain L4 where rc: "recover E e L3 = Inr L4"
          using recover_Some [OF i3, of E e] by simp
        note R = recover_remaining [OF rc i3]
        from m Raised True n rc
        have ir: "inner_round E L = after_match E Lexer_SKIP L4" by (simp add: inner_round_def)
        have a: "remaining s < remaining L" if "inner_round E L = Again s"
        proof -
          from that ir have am: "after_match E Lexer_SKIP L4 = Again s" by simp
          from after_match_input [of E Lexer_SKIP L4 s c] am obtain st4 where i: "input L4 = Some st4"
            "input s = Some st4"
            "type s = (if type L4 = Token_INVALID_TYPE E then Lexer_SKIP else type L4)"
            by auto
          from after_match_Again [OF am] i(3) R t3 have "wants_more E r L2"
            by (auto simp: wants_more_def split: if_splits)
          from P(2) [OF this] R r3 i show ?thesis by (simp add: remaining_def)
        qed
        have b: "remaining s \<le> remaining L \<and> (hitEOF s \<or> remaining s < remaining L)"
          if "inner_round E L = Break c s"
        proof -
          from that ir have am: "after_match E Lexer_SKIP L4 = Break c s" by simp
          from after_match_input [of E Lexer_SKIP L4 s c] am obtain st4 where i: "input L4 = Some st4"
            "input s = Some st4" "hitEOF s = (hitEOF L4 \<or> LA1 (Token_EOF E) st4 = Token_EOF E)"
            by auto
          have rs: "remaining s = remaining L4" using i by (simp add: remaining_def)
          show ?thesis
          proof (cases "LA1 (Token_EOF E) st = Token_EOF E")
            case True
            with R i have "st4 = st" by simp
            with True i rs R r3 P(1) show ?thesis by simp
          next
            case False
            with R rs r3 P(1) show ?thesis by simp
          qed
        qed
        from a b show ?thesis by blast
      qed
    qed
  qed
qed

lemma inner_loop_terminates:
  assumes p: "makes_progress E"
  shows "\<exists>r. inner_loop E L = Some r
           \<and> (\<forall>c s. r = Break c s \<longrightarrow>
                 remaining s \<le> remaining L \<and> (hitEOF s \<or> remaining s < remaining L))"
proof (induction "remaining L" arbitrary: L rule: less_induct)
  case less
  show ?case
  proof (cases "inner_round E L")
    case (Again s)
    with inner_round_progress [OF p, where L = L and s = s] have d: "remaining s < remaining L" by simp
    from less [OF d] obtain r where r: "inner_loop E s = Some r"
      and q: "\<forall>c s'. r = Break c s' \<longrightarrow>
                 remaining s' \<le> remaining s \<and> (hitEOF s' \<or> remaining s' < remaining s)"
      by blast
    have "inner_loop E L = Some r"
      by (subst inner_loop.simps) (simp add: Again r)
    with q d show ?thesis by auto
  next
    case (Break c s)
    have "inner_loop E L = Some (Break c s)"
      by (subst inner_loop.simps) (simp add: Break)
    with inner_round_progress [OF p, where L = L and s = s and c = c] Break show ?thesis by simp
  next
    case (Throw e s)
    have "inner_loop E L = Some (Throw e s)"
      by (subst inner_loop.simps) (simp add: Throw)
    then show ?thesis by simp
  qed
qed

lemma begin_token_work:
  "begin_token E L = Inr L1 \<Longrightarrow> remaining L1 = remaining L \<and> hitEOF L1 = hitEOF L"
  by (auto simp: begin_token_def remaining_def Let_def split: option.splits)

lemma finish_token_work:
  "finish_token s = (r, s') \<Longrightarrow> remaining s' = remaining s \<and> hitEOF s' = hitEOF s"
  by (auto simp: finish_token_def emit_def getCharIndex_def factory_create_def emitToken_def
      remaining_def Let_def split: option.splits sum.splits)

lemma emitEOF_work:
  "emitEOF E L = Inr (t, L1) \<Longrightarrow>
   remaining L1 = remaining L \<and> hitEOF L1 = hitEOF L \<and> tok_type t = Token_EOF E"
  by (auto simp: emitEOF_def factory_create_def emitToken_def remaining_def Let_def
      split: option.splits)

lemma outer_loop_terminates:
  assumes p: "makes_progress E"
  shows "\<exists>r s. outer_loop E L = Some (r, s)
           \<and> (\<forall>t. r = Inr t \<longrightarrow>
                 (hitEOF L \<longrightarrow> tok_type t = Token_EOF E \<and> work_left s = work_left L)
                 \<and> (\<not> hitEOF L \<longrightarrow> work_left s < work_left L))"
proof (induction "work_left L" arbitrary: L rule: less_induct)
  case less
  show ?case
  proof (cases "hitEOF L")
    case True
    show ?thesis
    proof (cases "emitEOF E L")
      case (Inl e)
      have "outer_loop E L = Some (Inl e, L)"
        by (subst outer_loop.simps) (simp add: True Inl)
      then show ?thesis by simp
    next
      case (Inr p)
      obtain t L1 where p: "p = (t, L1)" by (cases p)
      have "outer_loop E L = Some (Inr t, L1)"
        by (subst outer_loop.simps) (simp add: True Inr p)
      with emitEOF_work [of E L t L1] Inr p True show ?thesis
        by (simp add: work_left_def)
    qed
  next
    case False
    show ?thesis
    proof (cases "begin_token E L")
      case (Inl x)
      obtain e L1 where x: "x = (e, L1)" by (cases x)
      have "outer_loop E L = Some (Inl e, L1)"
        by (subst outer_loop.simps) (simp add: False Inl x)
      then show ?thesis by simp
    next
      case (Inr L1)
      note b = begin_token_work [OF Inr]
      from inner_loop_terminates [OF p, of L1] obtain r where r: "inner_loop E L1 = Some r"
        and q: "\<forall>c s. r = Break c s \<longrightarrow>
                 remaining s \<le> remaining L1 \<and> (hitEOF s \<or> remaining s < remaining L1)"
        by blast
      show ?thesis
      proof (cases r)
        case (Again s)
        with inner_loop_result [OF r] show ?thesis by simp
      next
        case (Throw e s)
        have "outer_loop E L = Some (Inl e, s)"
          by (subst outer_loop.simps) (simp add: False Inr r Throw)
        then show ?thesis by simp
      next
        case (Break c s)
        with q b have w: "remaining s \<le> remaining L" "hitEOF s \<or> remaining s < remaining L"
          by simp_all
        with False have d: "work_left s < work_left L"
          by (auto simp: work_left_def)
        show ?thesis
        proof (cases c)
          case True
          have u: "outer_loop E L = outer_loop E s"
            by (subst outer_loop.simps) (simp add: False Inr r Break True)
          from less [OF d] obtain r' s' where o: "outer_loop E s = Some (r', s')"
            and k: "\<forall>t. r' = Inr t \<longrightarrow>
                 (hitEOF s \<longrightarrow> tok_type t = Token_EOF E \<and> work_left s' = work_left s)
                 \<and> (\<not> hitEOF s \<longrightarrow> work_left s' < work_left s)"
            by blast
          from k d have "\<forall>t. r' = Inr t \<longrightarrow> work_left s' < work_left L"
            by (cases "hitEOF s") auto
          with u o False show ?thesis by simp
        next
          case c: False
          obtain r' s' where f: "finish_token s = (r', s')" by (cases "finish_token s")
          have "outer_loop E L = Some (r', s')"
            by (subst outer_loop.simps) (simp add: False Inr r Break c f)
          moreover from finish_token_work [OF f] d have "work_left s' < work_left L"
            by (simp add: work_left_def)
          ultimately show ?thesis using False by simp
        qed
      qed
    qed
  qed
qed

lemma release_marker_work:
  "release_marker m (r, s) = (r', s') \<Longrightarrow> r' = Inr t \<Longrightarrow>
   r = Inr t \<and> work_left s' = work_left s"
  by (auto simp: release_marker_def stream_release_def work_left_def remaining_def
      split: option.splits)

lemma nextToken_terminates:
  assumes p: "makes_progress E"
  shows "\<exists>r s. nextToken E L = Some (r, s)
           \<and> (\<forall>t. r = Inr t \<longrightarrow>
                 (hitEOF L \<longrightarrow> tok_type t = Token_EOF E)
                 \<and> (\<not> hitEOF L \<longrightarrow> work_left s < work_left L))"
proof (cases "input L")
  case None
  then show ?thesis by (simp add: nextToken_def)
next
  case (Some st)
  let ?M = "L\<lparr>input := Some (snd (stream_mark st))\<rparr>"
  have w: "work_left ?M = work_left L" "hitEOF ?M = hitEOF L"
    using Some by (simp_all add: work_left_def remaining_def stream_mark_def)
  from outer_loop_terminates [OF p, of ?M] obtain r s where o: "outer_loop E ?M = Some (r, s)"
    and k: "\<forall>t. r = Inr t \<longrightarrow>
                 (hitEOF ?M \<longrightarrow> tok_type t = Token_EOF E \<and> work_left s = work_left ?M)
                 \<and> (\<not> hitEOF ?M \<longrightarrow> work_left s < work_left ?M)"
    by blast
  obtain r' s' where rm: "release_marker (issued st) (r, s) = (r', s')"
    by (cases "release_marker (issued st) (r, s)")
  from nextToken_unfold [OF Some, of E] o rm have n: "nextToken E L = Some (r', s')" by simp
  have "(hitEOF L \<longrightarrow> tok_type t = Token_EOF E) \<and> (\<not> hitEOF L \<longrightarrow> work_left s' < work_left L)"
    if "r' = Inr t" for t
    using release_marker_work [OF rm that] k w by auto
  with n show ?thesis by blast
qed

lemma getAllTokens_loop_terminates:
  assumes p: "makes_progress E"
  shows "\<exists>r. getAllTokens_loop E tokens t L = Some r"
proof (induction "if tok_type t = Token_EOF E then 0 else if hitEOF L then 1 else 2 + work_left L"
       arbitrary: tokens t L rule: less_induct)
  case less
  show ?case
  proof (cases "tok_type t = Token_EOF E")
    case True
    have "getAllTokens_loop E tokens t L = Some (Inr tokens, L)"
      by (subst getAllTokens_loop.simps) (simp add: True)
    then show ?thesis by simp
  next
    case False
    from nextToken_terminates [OF p, of L] obtain r s where n: "nextToken E L = Some (r, s)"
      and k: "\<forall>t. r = Inr t \<longrightarrow>
                 (hitEOF L \<longrightarrow> tok_type t = Token_EOF E)
                 \<and> (\<not> hitEOF L \<longrightarrow> work_left s < work_left L)"
      by blast
    show ?thesis
    proof (cases r)
      case (Inl e)
      have "getAllTokens_loop E tokens t L = Some (Inl e, s)"
        by (subst getAllTokens_loop.simps) (simp add: False n Inl)
      then show ?thesis by simp
    next
      case (Inr t1)
      have u: "getAllTokens_loop E tokens t L = getAllTokens_loop E (tokens @ [t]) t1 s"
        by (subst getAllTokens_loop.simps) (simp add: False n Inr)
      from k Inr False
      have "(if tok_type t1 = Token_EOF E then 0 else if hitEOF s then 1 else 2 + work_left s)
            < (if tok_type t = Token_EOF E then 0 else if hitEOF L then 1 else 2 + work_left L)"
        by (cases "hitEOF L") auto
      from less [OF this] u show ?thesis by simp
    qed
  qed
qed

lemma getAllTokens_returns:
  assumes "makes_progress E"
  shows "\<exists>r L'. getAllTokens E L = Some (r, L')"
proof -
  from nextToken_terminates [OF assms, of L] obtain r1 L1 where n: "nextToken E L = Some (r1, L1)"
    by blast
  show ?thesis
  proof (cases r1)
    case (Inl e)
    with n show ?thesis by (simp add: getAllTokens_def)
  next
    case (Inr t)
    from getAllTokens_loop_terminates [OF assms, of "[]" t L1] n Inr
    show ?thesis by (auto simp: getAllTokens_def)
  qed
qed

subsection \<open>What getAllTokens collects\<close>

text \<open>
  The loop appends the tokens of the successive calls until one has the type
  \<open>Token.EOF\<close>.
\<close>

lemma getAllTokens_loop_content:
  assumes "getAllTokens_loop E tokens t L = Some (Inr toks, L')"
  shows "\<exists>rest. toks = tokens @ rest \<and> (\<forall>x \<in> set rest. tok_type x \<noteq> Token_EOF E)
           \<and> (case rest of
                 [] \<Rightarrow> tok_type t = Token_EOF E \<and> L' = L
               | x # xs \<Rightarrow> x = t
                   \<and> (\<exists>Ln eof. nextToken_times E (length xs) L = Some (Inr xs, Ln)
                         \<and> nextToken E Ln = Some (Inr eof, L') \<and> tok_type eof = Token_EOF E))"
  using assms
proof (induction E tokens t L "(Inr toks :: exn + token list, L')"
       rule: getAllTokens_loop.raw_induct [rotated, consumes 1, case_names step])
  case (step f E tokens t L)
  show ?case
  proof (cases "tok_type t = Token_EOF E")
    case True
    with step(2) show ?thesis by simp
  next
    case False
    with step(2) obtain t1 L1 where n: "nextToken E L = Some (Inr t1, L1)"
      and r: "f E (tokens @ [t]) t1 L1 = Some (Inr toks, L')"
      by (auto split: option.splits sum.splits prod.splits)
    from step(1) [OF r] obtain rest where e: "toks = (tokens @ [t]) @ rest"
      and ne: "\<forall>x \<in> set rest. tok_type x \<noteq> Token_EOF E"
      and c: "case rest of
                 [] \<Rightarrow> tok_type t1 = Token_EOF E \<and> L' = L1
               | x # xs \<Rightarrow> x = t1
                   \<and> (\<exists>Ln eof. nextToken_times E (length xs) L1 = Some (Inr xs, Ln)
                         \<and> nextToken E Ln = Some (Inr eof, L') \<and> tok_type eof = Token_EOF E)"
      by blast
    have "\<exists>Ln eof. nextToken_times E (length rest) L = Some (Inr rest, Ln)
                         \<and> nextToken E Ln = Some (Inr eof, L') \<and> tok_type eof = Token_EOF E"
    proof (cases rest)
      case Nil
      with c n show ?thesis by simp
    next
      case (Cons x xs)
      with c n show ?thesis by auto
    qed
    with e ne False show ?thesis by simp
  qed
qed

lemma getAllTokens_content:
  assumes "getAllTokens E L = Some (Inr toks, L')"
  shows "(\<forall>t \<in> set toks. tok_type t \<noteq> Token_EOF E)
       \<and> (\<exists>Ln eof. nextToken_times E (length toks) L = Some (Inr toks, Ln)
             \<and> nextToken E Ln = Some (Inr eof, L') \<and> tok_type eof = Token_EOF E)"
proof -
  from assms obtain t L1 where n: "nextToken E L = Some (Inr t, L1)"
    and g: "getAllTokens_loop E [] t L1 = Some (Inr toks, L')"
    by (auto simp: getAllTokens_def split: option.splits sum.splits prod.splits)
  from getAllTokens_loop_content [OF g]
  have ne: "\<forall>x \<in> set toks. tok_type x \<noteq> Token_EOF E"
    and c: "case toks of
             [] \<Rightarrow> tok_type t = Token_EOF E \<and> L' = L1
           | x # xs \<Rightarrow> x = t
               \<and> (\<exists>Ln eof. nextToken_times E (length xs) L1 = Some (Inr xs, Ln)
                     \<and> nextToken E Ln = Some (Inr eof, L') \<and> tok_type eof = Token_EOF E)"
    by simp_all
  have "\<exists>Ln eof. nextToken_times E (length toks) L = Some (Inr toks, Ln)
                   \<and> nextToken E Ln = Some (Inr eof, L') \<and> tok_type eof = Token_EOF E"
  proof (cases toks)
    case Nil
    with c n show ?thesis by simp
  next
    case (Cons x xs)
    with c n show ?thesis by auto
  qed
  with ne show ?thesis by simp
qed

subsection \<open>The one-character interpreter\<close>

text \<open>
  It leaves the start fields alone and makes progress; the rules to evaluate it.
\<close>

lemma toy_keeps_tokenStart: "keeps_tokenStart toy"
  by (simp add: keeps_tokenStart_def toy_def toy_match_def toy_advance_def Let_def split: option.splits)

lemma toy_leaves_emission: "leaves_emission toy"
  by (simp add: leaves_emission_def toy_def toy_match_def toy_advance_def Let_def split: option.splits)

lemma toy_makes_progress: "makes_progress toy"
  unfolding makes_progress_def
  by (auto simp: toy_def toy_match_def toy_advance_def remaining_def at_end_def wants_more_def
      LA1_def Lexer_MORE_def Lexer_SKIP_def Let_def split: option.splits if_splits)

lemma toy_consts: "Token_EOF toy = - 1" "Token_INVALID_TYPE toy = 0" "Token_DEFAULT_CHANNEL toy = 0"
  "interp_match toy = toy_match" "interp_track toy = toy_track"
  by (simp_all add: toy_def)

lemmas toy_simps = toy_def toy_match_def toy_advance_def toy_track_def toy_stream_def Lexer_def
  Lexer_SKIP_def Lexer_MORE_def Lexer_DEFAULT_MODE_def

lemmas driver_simps = attempt_start_def loop_top_def begin_token_def stream_mark_def
  inner_round_def after_match_def LA1_def notifyListeners_def recover_def interp_consume_def
  stream_consume_def syntaxError_def stream_getText_def getErrorDisplay_def

lemmas nextToken_simps = nextToken_def release_marker_def stream_release_def
  outer_loop.simps inner_loop.simps finish_token_def emit_def emitEOF_def getCharIndex_def
  factory_create_def emitToken_def

subsection \<open>The interpreter with the empty rule\<close>

text \<open>
  On the input \<open>b\<close> every call of \<open>nextToken\<close> returns an empty token of type
  \<open>1\<close> and leaves the stream where it was.
\<close>

lemma empty_rule_nextToken:
  assumes "input L = Some st" and "data st = ''b''" and "index st = 0" and "\<not> hitEOF L"
  shows "\<exists>t L' st'. nextToken empty_rule L = Some (Inr t, L') \<and> tok_type t = 1
           \<and> input L' = Some st' \<and> data st' = ''b'' \<and> index st' = 0 \<and> \<not> hitEOF L'"
  using assms
  by (simp add: nextToken_simps driver_simps empty_rule_def empty_match_def
      Lexer_SKIP_def Lexer_MORE_def Let_def)

lemma getAllTokens_loop_empty_rule:
  assumes "getAllTokens_loop E tokens t L = Some r"
    and "E = empty_rule" and "tok_type t = 1"
    and "input L = Some st" and "data st = ''b''" and "index st = 0" and "\<not> hitEOF L"
  shows False
  using assms
proof (induction E tokens t L r arbitrary: st
       rule: getAllTokens_loop.raw_induct [rotated, consumes 1, case_names step])
  case (step f E tokens t L r)
  from empty_rule_nextToken [OF step(5-8)]
  obtain t1 L1 st1 where n: "nextToken empty_rule L = Some (Inr t1, L1)" and t1: "tok_type t1 = 1"
    and i: "input L1 = Some st1" "data st1 = ''b''" "index st1 = 0" "\<not> hitEOF L1"
    by blast
  from step(2,3,4) n have "f E (tokens @ [t]) t1 L1 = Some r"
    by (simp add: empty_rule_def)
  from step(1) [OF this step(3) t1 i] show ?case .
qed

section \<open>The properties of the specification\<close>

subsection \<open>Default emission\<close>

text \<open>
  C1: take a call of \<open>nextToken()\<close> on a driver with a stream, and any of its attempts
  (the first, or one after \<open>k\<close> skipped attempts). If the inner loop of that attempt is
  left with a concrete type in a state \<open>s\<close> in which \<open>_token\<close> is still \<open>null\<close> (no
  rule action has emitted a token), then the call returns the token \<open>t\<close> that the factory
  builds from \<open>s\<close>: it spans \<open>_tokenStartCharIndex\<close> to the stream's index minus one
  and has the type, the channel, the text override and the start line and column of
  \<open>s\<close>. The factory has created \<open>t\<close>, \<open>_token\<close> is \<open>t\<close>, and the marker is
  released. When the interpreter leaves the start fields alone, the start index, line
  and column of \<open>t\<close> are the stream's index and the interpreter's line and column at the
  start of the attempt.
\<close>

theorem nextToken_default_emission:
  assumes "input L = Some st"
    and "attempt_start E k L = Some L1"
    and "inner_loop E L1 = Some (Break False s)"
    and "token s = None"
    and "input s = Some st'"
  shows "\<exists>t. nextToken E L =
             Some (Inr t, s\<lparr>factory_created := t # factory_created s, token := Some t,
                             input := Some (stream_release (issued st) st')\<rparr>)
           \<and> t = \<lparr>tok_source = tokenFactorySourcePair s, tok_type = type s, tok_text = text' s,
                   tok_channel = channel s, tok_start = tokenStartCharIndex s,
                   tok_stop = index st' - 1, tok_line = tokenStartLine s,
                   tok_column = tokenStartColumn s\<rparr>
           \<and> type s \<noteq> Lexer_SKIP \<and> type s \<noteq> Lexer_MORE
           \<and> (keeps_tokenStart E \<longrightarrow>
                 (\<exists>st1. input L1 = Some st1 \<and> tok_start t = index st1)
                 \<and> tok_line t = interp_line L1 \<and> tok_column t = interp_column L1)"
proof -
  from attempt_start_captured [OF assms(2)]
  obtain st1 where c: "input L1 = Some st1" "tokenStartCharIndex L1 = index st1"
    "tokenStartLine L1 = interp_line L1" "tokenStartColumn L1 = interp_column L1"
    by blast
  from default_emission [OF assms refl] inner_loop_Break_False [OF assms(3)]
    inner_loop_tokenStart [OF assms(3)] c
  show ?thesis by simp
qed

theorem nextToken_default_emission_witness:
  "\<exists>L1 s st' t L'. input ab = Some (toy_stream ''ab'') \<and> attempt_start toy 0 ab = Some L1
     \<and> inner_loop toy L1 = Some (Break False s) \<and> token s = None \<and> input s = Some st'
     \<and> keeps_tokenStart toy
     \<and> nextToken toy ab = Some (Inr t, L')
     \<and> tok_type t = 1 \<and> tok_start t = 0 \<and> tok_stop t = 0 \<and> tok_line t = 1 \<and> tok_column t = 0
     \<and> token L' = Some t"
proof -
  have i: "input ab = Some (toy_stream ''ab'')" by (simp add: ab_def Lexer_def)
  have "\<exists>L1 s st'. attempt_start toy 0 ab = Some L1
     \<and> inner_loop toy L1 = Some (Break False s) \<and> token s = None \<and> input s = Some st'
     \<and> type s = 1 \<and> tokenStartCharIndex s = 0 \<and> index st' = 1 \<and> tokenStartLine s = 1
     \<and> tokenStartColumn s = 0"
    by (simp add: ab_def toy_simps driver_simps inner_loop.simps Let_def)
  then obtain L1 s st' where a: "attempt_start toy 0 ab = Some L1"
     and l: "inner_loop toy L1 = Some (Break False s)" and n: "token s = None"
     and s: "input s = Some st'"
     and v: "type s = 1" "tokenStartCharIndex s = 0" "index st' = 1" "tokenStartLine s = 1"
        "tokenStartColumn s = 0"
    by blast
  from nextToken_default_emission [OF i a l n s] v toy_keeps_tokenStart i a l n s
  show ?thesis by auto
qed

subsection \<open>Skipped attempts\<close>

text \<open>
  C2: take an attempt of a call of \<open>nextToken()\<close> whose inner loop is left with
  \<open>continueOuter\<close> set, in a state \<open>s\<close> with the stream \<open>st1\<close>. Then the type is
  \<open>Lexer.SKIP\<close>, and the call is back at the top of its outer loop in the very state
  \<open>s\<close>: nothing was returned for the attempt, and what the call returns is what the
  outer loop returns from \<open>s\<close>. No token was emitted for it: with an interpreter that
  emits nothing itself, the token factory has created nothing since the call began and
  \<open>_token\<close> is \<open>null\<close>, at the start of the attempt and in \<open>s\<close>. If end of input
  has been hit, the call returns an end-of-input token that starts at the index of
  \<open>st1\<close>. Otherwise the next attempt starts with \<open>_token\<close> cleared and
  \<open>_tokenStartCharIndex\<close> captured from \<open>st1\<close>, and if it ends in the default
  emission (with an interpreter that leaves the start fields alone), the token returned
  starts at the index of \<open>st1\<close>, the position right after the skipped span. In both
  cases the token returned is the only one the factory has created during the call.
\<close>

theorem skip_restarts_attempt:
  assumes "input L = Some st"
    and "attempt_start E k L = Some L1"
    and "inner_loop E L1 = Some (Break True s)"
    and "input s = Some st1"
  shows "type s = Lexer_SKIP
     \<and> loop_top E (Suc k) L = Some s
     \<and> nextToken E L = map_option (release_marker (issued st)) (outer_loop E s)
     \<and> (leaves_emission E \<longrightarrow>
          factory_created L1 = factory_created L \<and> token L1 = None
          \<and> factory_created s = factory_created L \<and> token s = None)
     \<and> (hitEOF s \<longrightarrow>
          (\<exists>t L'. nextToken E L = Some (Inr t, L') \<and> tok_type t = Token_EOF E
                 \<and> tok_start t = index st1
                 \<and> (leaves_emission E \<longrightarrow> factory_created L' = t # factory_created L)))
     \<and> (\<not> hitEOF s \<longrightarrow>
          (\<exists>L2. attempt_start E (Suc k) L = Some L2 \<and> token L2 = None \<and> input L2 = Some st1
                \<and> tokenStartCharIndex L2 = index st1
                \<and> (\<forall>s2 st2. keeps_tokenStart E \<and> inner_loop E L2 = Some (Break False s2)
                       \<and> token s2 = None \<and> input s2 = Some st2 \<longrightarrow>
                     (\<exists>t L'. nextToken E L = Some (Inr t, L') \<and> token L' = Some t
                            \<and> tok_start t = index st1
                            \<and> (leaves_emission E \<longrightarrow>
                                  factory_created L' = t # factory_created L)))))"
proof -
  from inner_loop_result [OF assms(3)] have ty: "type s = Lexer_SKIP" by simp
  have top: "loop_top E (Suc k) L = Some s"
    using assms(2,3) by (rule loop_top_Suc)
  have nt: "nextToken E L = map_option (release_marker (issued st)) (outer_loop E s)"
    using assms(1) top by (rule nextToken_loop_top)
  have em: "factory_created L1 = factory_created L \<and> token L1 = None
          \<and> factory_created s = factory_created L \<and> token s = None" if le: "leaves_emission E"
    using attempt_start_emission [OF assms(2) le] inner_loop_emission [OF assms(3) le]
    by simp
  have eof: "\<exists>t L'. nextToken E L = Some (Inr t, L') \<and> tok_type t = Token_EOF E
                 \<and> tok_start t = index st1
                 \<and> (leaves_emission E \<longrightarrow> factory_created L' = t # factory_created L)"
    if h: "hitEOF s"
    using nt outer_loop_hitEOF [OF h assms(4) refl, of E] assms(4) em
    by (simp add: release_marker_def)
  have nxt: "\<exists>L2. attempt_start E (Suc k) L = Some L2 \<and> token L2 = None \<and> input L2 = Some st1
                \<and> tokenStartCharIndex L2 = index st1
                \<and> (\<forall>s2 st2. keeps_tokenStart E \<and> inner_loop E L2 = Some (Break False s2)
                       \<and> token s2 = None \<and> input s2 = Some st2 \<longrightarrow>
                     (\<exists>t L'. nextToken E L = Some (Inr t, L') \<and> token L' = Some t
                            \<and> tok_start t = index st1
                            \<and> (leaves_emission E \<longrightarrow>
                                  factory_created L' = t # factory_created L)))"
    if h: "\<not> hitEOF s"
  proof -
    obtain L2 where b: "begin_token E s = Inr L2" and p: "token L2 = None" "input L2 = Some st1"
      "tokenStartCharIndex L2 = index st1"
      using assms(4) by (simp add: begin_token_def Let_def)
    have a: "attempt_start E (Suc k) L = Some L2"
      using top h b by (simp add: attempt_start_def)
    have "\<exists>t L'. nextToken E L = Some (Inr t, L') \<and> token L' = Some t \<and> tok_start t = index st1
            \<and> (leaves_emission E \<longrightarrow> factory_created L' = t # factory_created L)"
      if k: "keeps_tokenStart E" and l: "inner_loop E L2 = Some (Break False s2)"
        and n: "token s2 = None" and i2: "input s2 = Some st2" for s2 st2
    proof -
      have "factory_created s2 = factory_created L" if le: "leaves_emission E"
        using attempt_start_emission [OF a le] inner_loop_emission [OF l le] by simp
      with default_emission [OF assms(1) a l n i2 refl] inner_loop_tokenStart [OF l k] p
      show ?thesis by simp
    qed
    with a p show ?thesis by blast
  qed
  from ty top nt em eof nxt show ?thesis by blast
qed

theorem skip_restarts_attempt_witness:
  "(\<exists>L1 s st1 L2 s2 st2 t L'. input space_a = Some (toy_stream '' a'')
     \<and> attempt_start toy 0 space_a = Some L1
     \<and> inner_loop toy L1 = Some (Break True s) \<and> input s = Some st1 \<and> \<not> hitEOF s
     \<and> index st1 = 1 \<and> leaves_emission toy
     \<and> factory_created s = [] \<and> token s = None
     \<and> attempt_start toy (Suc 0) space_a = Some L2 \<and> keeps_tokenStart toy
     \<and> inner_loop toy L2 = Some (Break False s2) \<and> token s2 = None \<and> input s2 = Some st2
     \<and> nextToken toy space_a = Some (Inr t, L') \<and> token L' = Some t \<and> tok_start t = 1
     \<and> factory_created L' = [t])
   \<and> (\<exists>L1 s st1 t L'. input space_only = Some (toy_stream '' '')
     \<and> attempt_start toy 0 space_only = Some L1
     \<and> inner_loop toy L1 = Some (Break True s) \<and> input s = Some st1 \<and> hitEOF s
     \<and> index st1 = 1 \<and> leaves_emission toy
     \<and> factory_created s = [] \<and> token s = None
     \<and> nextToken toy space_only = Some (Inr t, L') \<and> tok_type t = - 1 \<and> tok_start t = 1
     \<and> factory_created L' = [t])"
proof -
  have i: "input space_a = Some (toy_stream '' a'')" by (simp add: space_a_def Lexer_def)
  have f: "factory_created space_a = []" by (simp add: space_a_def Lexer_def)
  have "\<exists>L1 s st1 L2 s2 st2. attempt_start toy 0 space_a = Some L1
     \<and> inner_loop toy L1 = Some (Break True s) \<and> input s = Some st1 \<and> \<not> hitEOF s
     \<and> index st1 = 1 \<and> attempt_start toy (Suc 0) space_a = Some L2
     \<and> inner_loop toy L2 = Some (Break False s2) \<and> token s2 = None \<and> input s2 = Some st2"
    by (simp add: space_a_def toy_simps driver_simps inner_loop.simps Let_def)
  then obtain L1 s st1 L2 s2 st2 where a: "attempt_start toy 0 space_a = Some L1"
     and l: "inner_loop toy L1 = Some (Break True s)" and s: "input s = Some st1"
     and h: "\<not> hitEOF s" and v: "index st1 = 1" and a2: "attempt_start toy (Suc 0) space_a = Some L2"
     and l2: "inner_loop toy L2 = Some (Break False s2)" and n2: "token s2 = None"
     and s2: "input s2 = Some st2"
    by blast
  note T = skip_restarts_attempt [OF i a l s]
  from T [THEN conjunct2, THEN conjunct2, THEN conjunct2, THEN conjunct1, rule_format,
      OF toy_leaves_emission] f
  have e: "factory_created s = []" "token s = None" by simp_all
  from T [THEN conjunct2, THEN conjunct2, THEN conjunct2, THEN conjunct2, THEN conjunct2,
      rule_format, OF h]
  obtain L2' where a2': "attempt_start toy (Suc 0) space_a = Some L2'"
    and n: "\<And>s2 st2. keeps_tokenStart toy \<and> inner_loop toy L2' = Some (Break False s2)
                       \<and> token s2 = None \<and> input s2 = Some st2 \<Longrightarrow>
                     (\<exists>t L'. nextToken toy space_a = Some (Inr t, L') \<and> token L' = Some t
                            \<and> tok_start t = index st1
                            \<and> (leaves_emission toy \<longrightarrow>
                                  factory_created L' = t # factory_created space_a))"
    by blast
  from a2 a2' have "L2' = L2" by simp
  with n [of s2 st2] l2 n2 s2 toy_keeps_tokenStart toy_leaves_emission v f
  have "\<exists>t L'. nextToken toy space_a = Some (Inr t, L') \<and> token L' = Some t \<and> tok_start t = 1
          \<and> factory_created L' = [t]"
    by simp
  with i a l s h v e a2 l2 n2 s2 toy_keeps_tokenStart toy_leaves_emission
  have first: "\<exists>L1 s st1 L2 s2 st2 t L'. input space_a = Some (toy_stream '' a'')
     \<and> attempt_start toy 0 space_a = Some L1
     \<and> inner_loop toy L1 = Some (Break True s) \<and> input s = Some st1 \<and> \<not> hitEOF s
     \<and> index st1 = 1 \<and> leaves_emission toy
     \<and> factory_created s = [] \<and> token s = None
     \<and> attempt_start toy (Suc 0) space_a = Some L2 \<and> keeps_tokenStart toy
     \<and> inner_loop toy L2 = Some (Break False s2) \<and> token s2 = None \<and> input s2 = Some st2
     \<and> nextToken toy space_a = Some (Inr t, L') \<and> token L' = Some t \<and> tok_start t = 1
     \<and> factory_created L' = [t]"
    by blast
  have j: "input space_only = Some (toy_stream '' '')" by (simp add: space_only_def Lexer_def)
  have g: "factory_created space_only = []" by (simp add: space_only_def Lexer_def)
  have "\<exists>L1 s st1. attempt_start toy 0 space_only = Some L1
     \<and> inner_loop toy L1 = Some (Break True s) \<and> input s = Some st1 \<and> hitEOF s
     \<and> index st1 = 1"
    by (simp add: space_only_def toy_simps driver_simps inner_loop.simps Let_def)
  then obtain L1 s st1 where a: "attempt_start toy 0 space_only = Some L1"
     and l: "inner_loop toy L1 = Some (Break True s)" and s: "input s = Some st1"
     and h: "hitEOF s" and v: "index st1 = 1"
    by blast
  note U = skip_restarts_attempt [OF j a l s]
  from U [THEN conjunct2, THEN conjunct2, THEN conjunct2, THEN conjunct1, rule_format,
      OF toy_leaves_emission] g
  have e: "factory_created s = []" "token s = None" by simp_all
  from U [THEN conjunct2, THEN conjunct2, THEN conjunct2, THEN conjunct2, THEN conjunct1,
      rule_format, OF h] v g toy_leaves_emission
  have "\<exists>t L'. nextToken toy space_only = Some (Inr t, L') \<and> tok_type t = - 1 \<and> tok_start t = 1
          \<and> factory_created L' = [t]"
    by (simp add: toy_def)
  with j a l s h v e toy_leaves_emission
  have second: "\<exists>L1 s st1 t L'. input space_only = Some (toy_stream '' '')
     \<and> attempt_start toy 0 space_only = Some L1
     \<and> inner_loop toy L1 = Some (Break True s) \<and> input s = Some st1 \<and> hitEOF s
     \<and> index st1 = 1 \<and> leaves_emission toy
     \<and> factory_created s = [] \<and> token s = None
     \<and> nextToken toy space_only = Some (Inr t, L') \<and> tok_type t = - 1 \<and> tok_start t = 1
     \<and> factory_created L' = [t]"
    by blast
  from first second show ?thesis by (rule conjI)
qed

subsection \<open>Rounds that ask for more\<close>

text \<open>
  C3: take an attempt of a call of \<open>nextToken()\<close> in which one or more rounds of the
  inner loop end with the type \<open>Lexer.MORE\<close> and the next round ends with a concrete
  type, in a state \<open>s\<close>. With an interpreter that leaves the start fields alone and
  emits nothing itself, the call returns one token and exactly one is emitted: up to the
  end of the last round the token factory has created nothing since the call began and
  \<open>_token\<close> is \<open>null\<close>, and then the factory creates the token returned, which
  \<open>_token\<close> holds. The token starts at the index the stream had when the attempt began
  (before the first of these rounds), it stops one before the index of the stream after
  the last round, and it has the type of the last round.
\<close>

theorem more_rounds_one_token:
  assumes "input L = Some st"
    and "attempt_start E k L = Some L1"
    and "more_rounds E (Suc n) L1 = Some sn"
    and "inner_round E sn = Break False s"
    and "input s = Some st'"
    and "keeps_tokenStart E"
    and "leaves_emission E"
  shows "\<exists>t st1. nextToken E L =
             Some (Inr t, s\<lparr>factory_created := t # factory_created L, token := Some t,
                             input := Some (stream_release (issued st) st')\<rparr>)
           \<and> factory_created L1 = factory_created L \<and> token L1 = None
           \<and> factory_created sn = factory_created L \<and> token sn = None
           \<and> factory_created s = factory_created L \<and> token s = None
           \<and> input L1 = Some st1 \<and> tok_start t = index st1 \<and> tok_stop t = index st' - 1
           \<and> tok_type t = type s \<and> type s \<noteq> Lexer_SKIP \<and> type s \<noteq> Lexer_MORE"
proof -
  have l: "inner_loop E L1 = Some (Break False s)"
    using assms(3,4) by (rule inner_loop_last_round)
  note e1 = attempt_start_emission [OF assms(2,7)]
  note en = more_rounds_emission [OF assms(3,7)]
  note es = inner_loop_emission [OF l assms(7)]
  from e1 es have n: "token s = None" by simp
  from attempt_start_captured [OF assms(2)]
  obtain st1 where c: "input L1 = Some st1" "tokenStartCharIndex L1 = index st1"
    by blast
  from default_emission [OF assms(1,2) l n assms(5) refl] inner_loop_Break_False [OF l]
    inner_loop_tokenStart [OF l assms(6)] c e1 en es
  show ?thesis by simp
qed

theorem more_rounds_one_token_witness:
  "\<exists>L1 sn s st' t L'. input quoted = Some (toy_stream '' \"\"ab'')
     \<and> attempt_start toy (Suc 0) quoted = Some L1
     \<and> more_rounds toy (Suc (Suc 0)) L1 = Some sn
     \<and> inner_round toy sn = Break False s \<and> input s = Some st'
     \<and> keeps_tokenStart toy \<and> leaves_emission toy
     \<and> nextToken toy quoted = Some (Inr t, L')
     \<and> tok_type t = 1 \<and> tok_start t = 1 \<and> tok_stop t = 3
     \<and> factory_created sn = [] \<and> token sn = None
     \<and> factory_created L' = [t] \<and> token L' = Some t"
proof -
  have i: "input quoted = Some (toy_stream '' \"\"ab'')" by (simp add: quoted_def Lexer_def)
  have f: "factory_created quoted = []" by (simp add: quoted_def Lexer_def)
  have "\<exists>L1 sn s st' st1. attempt_start toy (Suc 0) quoted = Some L1
     \<and> more_rounds toy (Suc (Suc 0)) L1 = Some sn
     \<and> inner_round toy sn = Break False s \<and> input s = Some st'
     \<and> type s = 1 \<and> input L1 = Some st1 \<and> index st1 = 1 \<and> index st' = 4"
    by (simp add: quoted_def toy_simps driver_simps inner_loop.simps Let_def)
  then obtain L1 sn s st' st1 where a: "attempt_start toy (Suc 0) quoted = Some L1"
     and m: "more_rounds toy (Suc (Suc 0)) L1 = Some sn"
     and l: "inner_round toy sn = Break False s"
     and s: "input s = Some st'"
     and v: "type s = 1" "input L1 = Some st1" "index st1 = 1" "index st' = 4"
    by blast
  from more_rounds_one_token [OF i a m l s toy_keeps_tokenStart toy_leaves_emission] v f
  have "\<exists>t L'. nextToken toy quoted = Some (Inr t, L')
     \<and> tok_type t = 1 \<and> tok_start t = 1 \<and> tok_stop t = 3
     \<and> factory_created sn = [] \<and> token sn = None
     \<and> factory_created L' = [t] \<and> token L' = Some t"
    by auto
  with i a m l s toy_keeps_tokenStart toy_leaves_emission show ?thesis by blast
qed

subsection \<open>After the end of input\<close>

text \<open>
  C4: once \<open>_hitEOF\<close> is set, a call of \<open>nextToken()\<close> on a driver with a stream
  returns at once, whatever the interpreter, with an end-of-input token \<open>t\<close> that the
  factory has just created: its type is \<open>Token.EOF\<close>, it is on the default channel, it
  spans the stream's index to the index minus one, and it has the interpreter's line and
  column. Only \<open>_token\<close>, the factory's record and the stream's markers change. So any
  number \<open>n\<close> of successive calls returns \<open>n\<close> such tokens without an exception, the
  factory creates one for each call, and the stream stays at the same index.
\<close>

theorem nextToken_after_hitEOF:
  assumes "hitEOF L" and "input L = Some st"
  shows "\<exists>t Ln stn.
           t = \<lparr>tok_source = tokenFactorySourcePair L, tok_type = Token_EOF E, tok_text = None,
                 tok_channel = Token_DEFAULT_CHANNEL E, tok_start = index st,
                 tok_stop = index st - 1, tok_line = interp_line L, tok_column = interp_column L\<rparr>
           \<and> nextToken E L =
               Some (Inr t, L\<lparr>factory_created := t # factory_created L, token := Some t,
                               input := Some (st\<lparr>issued := Suc (issued st),
                                                  marks := removeAll (issued st) (marks st)\<rparr>)\<rparr>)
           \<and> nextToken_times E n L = Some (Inr (replicate n t), Ln)
           \<and> factory_created Ln = replicate n t @ factory_created L
           \<and> hitEOF Ln \<and> input Ln = Some stn \<and> index stn = index st"
  using nextToken_hitEOF [OF assms refl, of E] nextToken_times_hitEOF [OF assms refl, of E n]
  by blast

theorem nextToken_after_hitEOF_witness:
  "\<exists>a L st e Ln. nextToken toy letter_a = Some (Inr a, L) \<and> hitEOF L \<and> input L = Some st
     \<and> index st = 1
     \<and> nextToken toy L = Some (Inr e, L\<lparr>factory_created := [e, a], token := Some e,
                                          input := Some (st\<lparr>issued := 2\<rparr>)\<rparr>)
     \<and> e = \<lparr>tok_source = Some 7, tok_type = - 1, tok_text = None, tok_channel = 0,
             tok_start = 1, tok_stop = 0, tok_line = 1, tok_column = 1\<rparr>
     \<and> nextToken_times toy 3 L = Some (Inr [e, e, e], Ln)
     \<and> factory_created Ln = [e, e, e, a]"
proof -
  have "\<exists>a L st. nextToken toy letter_a = Some (Inr a, L) \<and> hitEOF L \<and> input L = Some st
     \<and> index st = 1 \<and> issued st = 1 \<and> marks st = [] \<and> tokenFactorySourcePair L = Some 7
     \<and> interp_line L = 1 \<and> interp_column L = 1 \<and> factory_created L = [a]"
    by (simp add: letter_a_def nextToken_def release_marker_def stream_release_def
        outer_loop.simps inner_loop.simps finish_token_def emit_def getCharIndex_def
        factory_create_def emitToken_def toy_simps driver_simps Let_def)
  then obtain a L st where c: "nextToken toy letter_a = Some (Inr a, L)"
    and h: "hitEOF L" and i: "input L = Some st"
    and v: "index st = 1" "issued st = 1" "marks st = []" "tokenFactorySourcePair L = Some 7"
      "interp_line L = 1" "interp_column L = 1" "factory_created L = [a]"
    by blast
  from nextToken_after_hitEOF [OF h i, of toy 3] c h i v show ?thesis
    by (auto simp: toy_def numeral_3_eq_3)
qed

subsection \<open>Recovery from a recognition failure\<close>

text \<open>
  C5: take a round of the inner loop, in any state \<open>L\<close>, in which \<open>match\<close> throws a
  recognition exception \<open>e\<close> and leaves a driver that still has its stream \<open>st\<close>. Then
  the listener dispatch receives exactly one error for \<open>e\<close>, with the start line and
  column of the token and the message built from the text between the token's start and
  the stream's index; after that \<open>recover\<close> returns without an exception and adds
  nothing to what the listener received. Its result depends on the next character of
  lookahead: at the end of input nothing changes; otherwise, for a
  \<open>LexerNoViableAltException\<close> it is the result of the interpreter's \<open>consume\<close>, which
  moves the stream on by one character and updates line and column for that character,
  and for any other recognition exception only the stream moves on by one character.
  The round goes on after the \<open>catch\<close> block with \<open>ttype = Lexer.SKIP\<close>, and no
  exception leaves it.
\<close>

theorem recognition_failure_recovered:
  assumes "interp_match E (mode L) (L\<lparr>type := Token_INVALID_TYPE E\<rparr>) = (Raised e, L2)"
    and "instanceof_RecognitionException e"
    and "input L2 = Some st"
  shows "\<exists>L3 L4 st'.
           notifyListeners e L2 = Inr L3
         \<and> L3 = L2\<lparr>listener_received :=
                    (tokenStartLine L2, tokenStartColumn L2,
                     ''token recognition error at: '' @ [CHR 0x27]
                       @ stream_getText (tokenStartCharIndex L2) (index st) st @ [CHR 0x27], e)
                    # listener_received L2\<rparr>
         \<and> recover E e L3 = Inr L4
         \<and> listener_received L4 = listener_received L3
         \<and> st' = st\<lparr>index := index st + 1\<rparr>
         \<and> (if LA1 (Token_EOF E) st = Token_EOF E then L4 = L3
             else if instanceof_LexerNoViableAltException e then
               interp_consume E L3 = Inr L4
               \<and> L4 = L3\<lparr>input := Some st',
                         interp_line := fst (interp_track E (LA1 (Token_EOF E) st)
                                               (interp_line L2, interp_column L2)),
                         interp_column := snd (interp_track E (LA1 (Token_EOF E) st)
                                                 (interp_line L2, interp_column L2))\<rparr>
             else stream_consume st = Inr st' \<and> L4 = L3\<lparr>input := Some st'\<rparr>)
         \<and> inner_round E L = after_match E Lexer_SKIP L4
         \<and> (\<forall>x s. inner_round E L \<noteq> Throw x s)"
proof -
  define L3 where "L3 = L2\<lparr>listener_received :=
                    (tokenStartLine L2, tokenStartColumn L2,
                     ''token recognition error at: '' @ [CHR 0x27]
                       @ stream_getText (tokenStartCharIndex L2) (index st) st @ [CHR 0x27], e)
                    # listener_received L2\<rparr>"
  define st' where "st' = st\<lparr>index := index st + 1\<rparr>"
  define L4 where "L4 = (if LA1 (Token_EOF E) st = Token_EOF E then L3
          else if instanceof_LexerNoViableAltException e then
            L3\<lparr>input := Some (st\<lparr>index := index st + 1\<rparr>),
               interp_line := fst (interp_track E (LA1 (Token_EOF E) st) (interp_line L3, interp_column L3)),
               interp_column := snd (interp_track E (LA1 (Token_EOF E) st) (interp_line L3, interp_column L3))\<rparr>
          else L3\<lparr>input := Some (st\<lparr>index := index st + 1\<rparr>)\<rparr>)"
  have n: "notifyListeners e L2 = Inr L3"
    unfolding L3_def using assms(3) by (rule notifyListeners_Some)
  have i3: "input L3 = Some st" and p3: "interp_line L3 = interp_line L2"
    "interp_column L3 = interp_column L2"
    using assms(3) by (simp_all add: L3_def)
  have r: "recover E e L3 = Inr L4"
    unfolding L4_def using i3 by (rule recover_Some)
  have i4: "input L4 \<noteq> None" using i3 by (simp add: L4_def)
  have round: "inner_round E L = after_match E Lexer_SKIP L4"
    by (simp add: inner_round_def assms(1,2) n r)
  have nothrow: "\<forall>x s. inner_round E L \<noteq> Throw x s"
    using round after_match_no_Throw [OF i4] by simp
  have cases: "if LA1 (Token_EOF E) st = Token_EOF E then L4 = L3
             else if instanceof_LexerNoViableAltException e then
               interp_consume E L3 = Inr L4
               \<and> L4 = L3\<lparr>input := Some st',
                         interp_line := fst (interp_track E (LA1 (Token_EOF E) st)
                                               (interp_line L2, interp_column L2)),
                         interp_column := snd (interp_track E (LA1 (Token_EOF E) st)
                                                 (interp_line L2, interp_column L2))\<rparr>
             else stream_consume st = Inr st' \<and> L4 = L3\<lparr>input := Some st'\<rparr>"
    using interp_consume_Some [OF i3, of E] LA1_not_eof [of "Token_EOF E" st] p3
    by (simp add: L4_def st'_def)
  have lr: "listener_received L4 = listener_received L3"
    by (simp add: L4_def)
  from n r lr cases round nothrow L3_def st'_def show ?thesis by blast
qed

theorem recognition_failure_recovered_witness:
  "(\<exists>L L2 st L3 L4.
       attempt_start toy 0 percent = Some L
     \<and> interp_match toy (mode L) (L\<lparr>type := Token_INVALID_TYPE toy\<rparr>)
         = (Raised (LexerNoViableAltException ''no viable alternative''), L2)
     \<and> instanceof_RecognitionException (LexerNoViableAltException ''no viable alternative'')
     \<and> input L2 = Some st \<and> index st = 0 \<and> listener_received L2 = []
     \<and> notifyListeners (LexerNoViableAltException ''no viable alternative'') L2 = Inr L3
     \<and> length (listener_received L4) = 1
     \<and> interp_consume toy L3 = Inr L4
     \<and> input L4 = Some (st\<lparr>index := 1\<rparr>) \<and> interp_column L4 = 1
     \<and> inner_round toy L = after_match toy Lexer_SKIP L4)
   \<and> (\<exists>L L2 st L3 L4.
       attempt_start toy 0 hash = Some L
     \<and> interp_match toy (mode L) (L\<lparr>type := Token_INVALID_TYPE toy\<rparr>)
         = (Raised (RecognitionException ''predicate failed''), L2)
     \<and> instanceof_RecognitionException (RecognitionException ''predicate failed'')
     \<and> input L2 = Some st \<and> index st = 0 \<and> listener_received L2 = []
     \<and> notifyListeners (RecognitionException ''predicate failed'') L2 = Inr L3
     \<and> length (listener_received L4) = 1
     \<and> stream_consume st = Inr (st\<lparr>index := 1\<rparr>)
     \<and> L4 = L3\<lparr>input := Some (st\<lparr>index := 1\<rparr>)\<rparr>
     \<and> inner_round toy L = after_match toy Lexer_SKIP L4)
   \<and> (\<exists>L L2 st L3.
       attempt_start toy 0 dollar = Some L
     \<and> interp_match toy (mode L) (L\<lparr>type := Token_INVALID_TYPE toy\<rparr>)
         = (Raised (LexerNoViableAltException ''no viable alternative''), L2)
     \<and> input L2 = Some st \<and> LA1 (Token_EOF toy) st = Token_EOF toy \<and> listener_received L2 = []
     \<and> notifyListeners (LexerNoViableAltException ''no viable alternative'') L2 = Inr L3
     \<and> length (listener_received L3) = 1
     \<and> recover toy (LexerNoViableAltException ''no viable alternative'') L3 = Inr L3
     \<and> inner_round toy L = after_match toy Lexer_SKIP L3)"
proof (intro conjI)
  let ?e = "LexerNoViableAltException ''no viable alternative''"
  have "\<exists>L L2 st. attempt_start toy 0 percent = Some L
     \<and> interp_match toy (mode L) (L\<lparr>type := Token_INVALID_TYPE toy\<rparr>) = (Raised ?e, L2)
     \<and> input L2 = Some st \<and> index st = 0 \<and> LA1 (- 1) st = 37 \<and> interp_column L2 = 0
     \<and> listener_received L2 = []"
    by (simp add: percent_def toy_simps driver_simps Let_def)
  then obtain L L2 st where a: "attempt_start toy 0 percent = Some L"
    and m: "interp_match toy (mode L) (L\<lparr>type := Token_INVALID_TYPE toy\<rparr>) = (Raised ?e, L2)"
    and i: "input L2 = Some st"
    and v: "index st = 0" "LA1 (- 1) st = 37" "interp_column L2 = 0" "listener_received L2 = []"
    by blast
  have r: "instanceof_RecognitionException ?e" by simp
  from recognition_failure_recovered [OF m r i]
  obtain L3 L4 where n: "notifyListeners ?e L2 = Inr L3"
    and l3: "length (listener_received L3) = Suc (length (listener_received L2))"
    and l4: "listener_received L4 = listener_received L3"
    and c: "interp_consume toy L3 = Inr L4"
      "L4 = L3\<lparr>input := Some (st\<lparr>index := index st + 1\<rparr>),
               interp_line := fst (interp_track toy (LA1 (Token_EOF toy) st) (interp_line L2, interp_column L2)),
               interp_column := snd (interp_track toy (LA1 (Token_EOF toy) st) (interp_line L2, interp_column L2))\<rparr>"
    and rd: "inner_round toy L = after_match toy Lexer_SKIP L4"
    using v by (auto simp: toy_consts)
  from c(2) v have "input L4 = Some (st\<lparr>index := 1\<rparr>)" "interp_column L4 = 1"
    by (simp_all add: toy_consts toy_track_def)
  with a m r i v n l3 l4 c(1) rd
  show "\<exists>L L2 st L3 L4.
       attempt_start toy 0 percent = Some L
     \<and> interp_match toy (mode L) (L\<lparr>type := Token_INVALID_TYPE toy\<rparr>) = (Raised ?e, L2)
     \<and> instanceof_RecognitionException ?e
     \<and> input L2 = Some st \<and> index st = 0 \<and> listener_received L2 = []
     \<and> notifyListeners ?e L2 = Inr L3
     \<and> length (listener_received L4) = 1
     \<and> interp_consume toy L3 = Inr L4
     \<and> input L4 = Some (st\<lparr>index := 1\<rparr>) \<and> interp_column L4 = 1
     \<and> inner_round toy L = after_match toy Lexer_SKIP L4"
    by (intro exI [of _ L] exI [of _ L2] exI [of _ st] exI [of _ L3] exI [of _ L4]) simp
next
  let ?e = "RecognitionException ''predicate failed''"
  have "\<exists>L L2 st. attempt_start toy 0 hash = Some L
     \<and> interp_match toy (mode L) (L\<lparr>type := Token_INVALID_TYPE toy\<rparr>) = (Raised ?e, L2)
     \<and> input L2 = Some st \<and> index st = 0 \<and> LA1 (- 1) st = 35
     \<and> listener_received L2 = []"
    by (simp add: hash_def toy_simps driver_simps Let_def)
  then obtain L L2 st where a: "attempt_start toy 0 hash = Some L"
    and m: "interp_match toy (mode L) (L\<lparr>type := Token_INVALID_TYPE toy\<rparr>) = (Raised ?e, L2)"
    and i: "input L2 = Some st"
    and v: "index st = 0" "LA1 (- 1) st = 35" "listener_received L2 = []"
    by blast
  have r: "instanceof_RecognitionException ?e" by simp
  from recognition_failure_recovered [OF m r i]
  obtain L3 L4 where n: "notifyListeners ?e L2 = Inr L3"
    and l3: "length (listener_received L3) = Suc (length (listener_received L2))"
    and l4: "listener_received L4 = listener_received L3"
    and c: "stream_consume st = Inr (st\<lparr>index := index st + 1\<rparr>)"
      "L4 = L3\<lparr>input := Some (st\<lparr>index := index st + 1\<rparr>)\<rparr>"
    and rd: "inner_round toy L = after_match toy Lexer_SKIP L4"
    using v by (auto simp: toy_consts)
  with a m r i v
  show "\<exists>L L2 st L3 L4.
       attempt_start toy 0 hash = Some L
     \<and> interp_match toy (mode L) (L\<lparr>type := Token_INVALID_TYPE toy\<rparr>) = (Raised ?e, L2)
     \<and> instanceof_RecognitionException ?e
     \<and> input L2 = Some st \<and> index st = 0 \<and> listener_received L2 = []
     \<and> notifyListeners ?e L2 = Inr L3
     \<and> length (listener_received L4) = 1
     \<and> stream_consume st = Inr (st\<lparr>index := 1\<rparr>)
     \<and> L4 = L3\<lparr>input := Some (st\<lparr>index := 1\<rparr>)\<rparr>
     \<and> inner_round toy L = after_match toy Lexer_SKIP L4"
    by (intro exI [of _ L] exI [of _ L2] exI [of _ st] exI [of _ L3] exI [of _ L4]) simp
next
  let ?e = "LexerNoViableAltException ''no viable alternative''"
  have "\<exists>L L2 st. attempt_start toy 0 dollar = Some L
     \<and> interp_match toy (mode L) (L\<lparr>type := Token_INVALID_TYPE toy\<rparr>) = (Raised ?e, L2)
     \<and> input L2 = Some st \<and> LA1 (- 1) st = - 1
     \<and> listener_received L2 = []"
    by (simp add: dollar_def toy_simps driver_simps Let_def)
  then obtain L L2 st where a: "attempt_start toy 0 dollar = Some L"
    and m: "interp_match toy (mode L) (L\<lparr>type := Token_INVALID_TYPE toy\<rparr>) = (Raised ?e, L2)"
    and i: "input L2 = Some st"
    and v: "LA1 (- 1) st = - 1" "listener_received L2 = []"
    by blast
  have r: "instanceof_RecognitionException ?e" by simp
  from recognition_failure_recovered [OF m r i]
  obtain L3 where n: "notifyListeners ?e L2 = Inr L3"
    and l3: "length (listener_received L3) = Suc (length (listener_received L2))"
    and c: "recover toy ?e L3 = Inr L3"
    and rd: "inner_round toy L = after_match toy Lexer_SKIP L3"
    using v by (auto simp: toy_consts)
  with a m i v
  show "\<exists>L L2 st L3.
       attempt_start toy 0 dollar = Some L
     \<and> interp_match toy (mode L) (L\<lparr>type := Token_INVALID_TYPE toy\<rparr>) = (Raised ?e, L2)
     \<and> input L2 = Some st \<and> LA1 (Token_EOF toy) st = Token_EOF toy \<and> listener_received L2 = []
     \<and> notifyListeners ?e L2 = Inr L3
     \<and> length (listener_received L3) = 1
     \<and> recover toy ?e L3 = Inr L3
     \<and> inner_round toy L = after_match toy Lexer_SKIP L3"
    by (intro exI [of _ L] exI [of _ L2] exI [of _ st] exI [of _ L3]) (simp add: toy_consts)
qed

subsection \<open>Other failures and the marker\<close>

text \<open>
  C6 asks that a thrown value that is not a recognition exception reaches the caller
  unchanged. The code does not do that for \<open>null\<close> and \<open>undefined\<close>: before
  \<open>throw e\<close> the \<open>catch\<close> block evaluates \<open>console.log(e.stack)\<close> (line 124), and
  reading \<open>e.stack\<close> of such a value raises a \<open>TypeError\<close>, which is what the caller
  gets. On the input \<open>?\<close> a rule action of the one-character interpreter throws
  \<open>null\<close>; the round, and the call of \<open>nextToken()\<close>, throw the \<open>TypeError\<close>
  instead. Nothing is reported or recovered, and the marker is released.
\<close>

theorem thrown_null_replaced:
  "attempt_start toy 0 question = Some question_started
   \<and> interp_match toy (mode question_started) (question_started\<lparr>type := Token_INVALID_TYPE toy\<rparr>)
       = (Raised ThrownNull, question_started)
   \<and> instanceof_RecognitionException ThrownNull = False
   \<and> inner_round toy question_started = Throw (TypeError ''stack'') question_started
   \<and> nextToken toy question
       = Some (Inl (TypeError ''stack''),
               question_started\<lparr>input := Some ((toy_stream ''?'')\<lparr>issued := 1\<rparr>)\<rparr>)
   \<and> listener_received question_started = []
   \<and> TypeError ''stack'' \<noteq> ThrownNull"
  by (simp add: question_started_def question_def toy_simps driver_simps nextToken_simps Let_def)

text \<open>
  What the code does for every other value, and for the marker. In a call of
  \<open>nextToken()\<close> on a driver with the stream \<open>st\<close>, the marker is \<open>issued st\<close>.
  \<^item> If in any round of any attempt \<open>match\<close> throws \<open>e\<close> that is neither a recognition
    exception nor \<open>null\<close> or \<open>undefined\<close>, and leaves a driver that still has a
    stream, then the round is left with \<open>e\<close> in the state \<open>match\<close> left (nothing is
    reported, nothing recovered), and the call throws this same \<open>e\<close>, in that state
    with the marker released.
  \<^item> An exception \<open>e\<close> that leaves the outer loop in a state that has a stream is the
    exception the call throws, with the marker released.
  \<^item> However the call ends, with a token or with an exception \<open>r\<close>: the marker is not
    among the markers of the stream the driver then has; if it has none, \<open>r\<close> is the
    \<open>TypeError\<close> of the call of \<open>release\<close> in the \<open>finally\<close> block.
\<close>

lemma read_stack_Inr: "e \<noteq> ThrownNull \<Longrightarrow> read_stack e = Inr ()"
  by (cases e) simp_all

lemma failure_propagates_marker_released:
  "(input L = Some st \<and> attempt_start E k L = Some L1 \<and> more_rounds E n L1 = Some sn
      \<and> interp_match E (mode sn) (sn\<lparr>type := Token_INVALID_TYPE E\<rparr>) = (Raised e, s)
      \<and> \<not> instanceof_RecognitionException e \<and> e \<noteq> ThrownNull \<and> input s = Some st'
     \<longrightarrow> inner_round E sn = Throw e s
         \<and> nextToken E L = Some (Inl e, s\<lparr>input := Some (stream_release (issued st) st')\<rparr>)
         \<and> issued st \<notin> set (marks (stream_release (issued st) st')))
   \<and> (input L = Some st \<and> outer_loop E (L\<lparr>input := Some (snd (stream_mark st))\<rparr>) = Some (Inl e, s)
      \<and> input s = Some st'
     \<longrightarrow> nextToken E L = Some (Inl e, s\<lparr>input := Some (stream_release (issued st) st')\<rparr>))
   \<and> (input L = Some st \<and> nextToken E L = Some (r, L')
     \<longrightarrow> (case input L' of
            None \<Rightarrow> r = Inl (TypeError ''release'')
          | Some st'' \<Rightarrow> issued st \<notin> set (marks st'')))"
proof (intro conjI impI)
  assume h: "input L = Some st \<and> attempt_start E k L = Some L1 \<and> more_rounds E n L1 = Some sn
      \<and> interp_match E (mode sn) (sn\<lparr>type := Token_INVALID_TYPE E\<rparr>) = (Raised e, s)
      \<and> \<not> instanceof_RecognitionException e \<and> e \<noteq> ThrownNull \<and> input s = Some st'"
  then have i: "input L = Some st" and a: "attempt_start E k L = Some L1"
    and m: "more_rounds E n L1 = Some sn"
    and x: "interp_match E (mode sn) (sn\<lparr>type := Token_INVALID_TYPE E\<rparr>) = (Raised e, s)"
    and u: "\<not> instanceof_RecognitionException e" and nn: "e \<noteq> ThrownNull"
    and s: "input s = Some st'"
    by simp_all
  have r: "inner_round E sn = Throw e s"
    using inner_round_unexpected [OF x u] read_stack_Inr [OF nn] by simp
  have "inner_loop E L1 = Some (Throw e s)"
    using m r by (rule inner_loop_Throw_round)
  with i a have n: "nextToken E L = Some (Inl e, s\<lparr>input := Some (stream_release (issued st) st')\<rparr>)"
    using s by (rule nextToken_Throw)
  from r show "inner_round E sn = Throw e s" .
  from n show "nextToken E L = Some (Inl e, s\<lparr>input := Some (stream_release (issued st) st')\<rparr>)" .
  show "issued st \<notin> set (marks (stream_release (issued st) st'))"
    by (simp add: stream_release_def)
next
  assume "input L = Some st \<and> outer_loop E (L\<lparr>input := Some (snd (stream_mark st))\<rparr>) = Some (Inl e, s)
      \<and> input s = Some st'"
  then show "nextToken E L = Some (Inl e, s\<lparr>input := Some (stream_release (issued st) st')\<rparr>)"
    by (simp add: nextToken_unfold release_marker_def)
next
  assume "input L = Some st \<and> nextToken E L = Some (r, L')"
  then have "input L = Some st" and "nextToken E L = Some (r, L')" by simp_all
  then show "case input L' of
            None \<Rightarrow> r = Inl (TypeError ''release'')
          | Some st'' \<Rightarrow> issued st \<notin> set (marks st'')"
    by (rule nextToken_released)
qed

text \<open>
  The same call with a thrown string in place of \<open>null\<close>: the string reaches the caller.
\<close>

lemma thrown_string_propagates:
  "\<exists>s. nextToken toy quote_bang = Some (Inl (Thrown ''action failed''), s)"
  by (simp add: quote_bang_def toy_simps driver_simps nextToken_simps Let_def)

subsection \<open>The mode stack\<close>

text \<open>
  C7: for every mode \<open>m\<close> and every state, whatever the depth of the mode stack,
  \<open>pushMode(m)\<close> followed at once by \<open>popMode()\<close> gives back the state before the push,
  and so the mode that was current and the stack as it was; \<open>popMode()\<close> returns that
  mode.
\<close>

theorem pushMode_popMode:
  "popMode (pushMode m L) = (Inr (mode L), L)"
  by (simp add: popMode_def pushMode_def set_mode_def Let_def)

text \<open>
  C8: on an empty mode stack \<open>popMode()\<close> throws \<open>"Empty Stack"\<close>; it returns no mode,
  and the current mode and the stack are as before.
\<close>

theorem popMode_empty:
  "modeStack L = [] \<Longrightarrow> popMode L = (Inl (Thrown ''Empty Stack''), L)"
  by (simp add: popMode_def)

theorem popMode_empty_witness:
  "modeStack (Lexer toy None) = []
   \<and> popMode (Lexer toy None) = (Inl (Thrown ''Empty Stack''), Lexer toy None)"
  using popMode_empty [of "Lexer toy None"] by (simp add: Lexer_def)

subsection \<open>getAllTokens\<close>

text \<open>
  C9 as it is stated does not hold: whether \<open>getAllTokens()\<close> terminates depends on
  the interpreter. With a rule that matches the empty string every call of
  \<open>nextToken()\<close> on the input \<open>b\<close> returns an empty token, the end of input is never
  hit, and \<open>getAllTokens()\<close> does not return.
\<close>

theorem getAllTokens_diverges: "getAllTokens empty_rule stuck = None"
proof -
  have "\<exists>t L' st'. nextToken empty_rule stuck = Some (Inr t, L') \<and> tok_type t = 1
           \<and> input L' = Some st' \<and> data st' = ''b'' \<and> index st' = 0 \<and> \<not> hitEOF L'"
    by (rule empty_rule_nextToken [where st = "toy_stream ''b''"])
       (simp_all add: stuck_def Lexer_def toy_stream_def)
  then obtain t L' st' where n: "nextToken empty_rule stuck = Some (Inr t, L')"
    and t: "tok_type t = 1"
    and i: "input L' = Some st'" "data st' = ''b''" "index st' = 0" "\<not> hitEOF L'"
    by blast
  have "getAllTokens_loop empty_rule [] t L' = None"
  proof (cases "getAllTokens_loop empty_rule [] t L'")
    case None
    then show ?thesis .
  next
    case (Some r)
    from getAllTokens_loop_empty_rule [OF Some refl t i] show ?thesis ..
  qed
  with n show ?thesis by (simp add: getAllTokens_def)
qed

text \<open>
  C9, amended: with an interpreter that makes progress, \<open>getAllTokens()\<close> terminates
  on every driver: it returns its sequence, or it throws the exception of one of its
  calls of \<open>nextToken()\<close>. And with any interpreter, when \<open>getAllTokens()\<close> returns
  the sequence \<open>toks\<close>, then \<open>toks\<close> holds, in their order, exactly the tokens that the
  first \<open>length toks\<close> calls of \<open>nextToken()\<close> return, the next call returns a token
  of type \<open>Token.EOF\<close>, and no token of \<open>toks\<close> has the type \<open>Token.EOF\<close>.
\<close>

theorem getAllTokens_terminates:
  "(makes_progress E \<longrightarrow> (\<exists>r L'. getAllTokens E L = Some (r, L')))
   \<and> (getAllTokens E L = Some (Inr toks, L') \<longrightarrow>
        (\<forall>t \<in> set toks. tok_type t \<noteq> Token_EOF E)
        \<and> (\<exists>Ln eof. nextToken_times E (length toks) L = Some (Inr toks, Ln)
              \<and> nextToken E Ln = Some (Inr eof, L') \<and> tok_type eof = Token_EOF E))"
  using getAllTokens_returns [of E L] getAllTokens_content [of E L toks L']
  by blast

theorem getAllTokens_terminates_witness:
  "makes_progress toy
   \<and> (\<exists>t1 t2 L' Ln eof. getAllTokens toy quoted = Some (Inr [t1, t2], L')
        \<and> tok_type t1 = 1 \<and> tok_start t1 = 1 \<and> tok_stop t1 = 3
        \<and> tok_type t2 = 1 \<and> tok_start t2 = 4 \<and> tok_stop t2 = 4
        \<and> nextToken_times toy 2 quoted = Some (Inr [t1, t2], Ln)
        \<and> nextToken toy Ln = Some (Inr eof, L') \<and> tok_type eof = - 1)"
proof -
  from getAllTokens_terminates [of toy quoted, THEN conjunct1, rule_format, OF toy_makes_progress]
  obtain r L' where g: "getAllTokens toy quoted = Some (r, L')" by blast
  have "\<exists>t1 t2 L'. getAllTokens toy quoted = Some (Inr [t1, t2], L')
        \<and> tok_type t1 = 1 \<and> tok_start t1 = 1 \<and> tok_stop t1 = 3
        \<and> tok_type t2 = 1 \<and> tok_start t2 = 4 \<and> tok_stop t2 = 4"
    by (simp add: quoted_def getAllTokens_def getAllTokens_loop.simps nextToken_simps
        toy_simps driver_simps Let_def)
  with g obtain t1 t2 where e: "getAllTokens toy quoted = Some (Inr [t1, t2], L')"
    and v: "tok_type t1 = 1" "tok_start t1 = 1" "tok_stop t1 = 3"
      "tok_type t2 = 1" "tok_start t2 = 4" "tok_stop t2 = 4"
    by auto
  from getAllTokens_terminates [of toy quoted "[t1, t2]" L', THEN conjunct2, rule_format, OF e]
  obtain Ln eof where "nextToken_times toy 2 quoted = Some (Inr [t1, t2], Ln)"
    and "nextToken toy Ln = Some (Inr eof, L')" and "tok_type eof = - 1"
    by (auto simp: toy_consts numeral_2_eq_2)
  with e v toy_makes_progress show ?thesis by blast
qed

subsection \<open>A new input stream\<close>

text \<open>
  C10: assigning a stream \<open>st\<close> through the setter \<open>inputStream\<close> leaves the driver as
  \<open>reset()\<close> leaves it, except that the driver holds \<open>st\<close> and the source pair of the
  token factory refers to \<open>st\<close>: the scan state, the mode stack and \<open>_hitEOF\<close> are
  cleared. The stream \<open>st\<close> itself is untouched: \<open>reset()\<close> rewinds the stream of a
  driver that holds one, but the setter runs it while \<open>_input\<close> is \<open>null\<close>. The first
  attempt of the next call of \<open>nextToken()\<close> therefore starts its token at the index
  \<open>st\<close> is at.
\<close>

theorem set_inputStream_not_rewound:
  "set_inputStream E (Some st) L =
     (reset E L)\<lparr>input := Some st, tokenFactorySourcePair := Some (ident st)\<rparr>
   \<and> input (set_inputStream E (Some st) L) = Some st
   \<and> input (reset E (L\<lparr>input := Some st\<rparr>)) = Some (stream_seek 0 st)
   \<and> hitEOF (set_inputStream E (Some st) L) = False
   \<and> modeStack (set_inputStream E (Some st) L) = []
   \<and> mode (set_inputStream E (Some st) L) = Lexer_DEFAULT_MODE
   \<and> token (set_inputStream E (Some st) L) = None
   \<and> type (set_inputStream E (Some st) L) = Token_INVALID_TYPE E
   \<and> channel (set_inputStream E (Some st) L) = Token_DEFAULT_CHANNEL E
   \<and> text' (set_inputStream E (Some st) L) = None
   \<and> tokenStartCharIndex (set_inputStream E (Some st) L) = - 1
   \<and> tokenStartLine (set_inputStream E (Some st) L) = - 1
   \<and> tokenStartColumn (set_inputStream E (Some st) L) = - 1
   \<and> (\<exists>L1 st1. attempt_start E 0 (set_inputStream E (Some st) L) = Some L1
          \<and> input L1 = Some st1 \<and> index st1 = index st \<and> tokenStartCharIndex L1 = index st)"
  by (simp add: set_inputStream_def reset_def interp_reset_def attempt_start_def loop_top_def
      begin_token_def stream_mark_def Let_def split: option.splits)

end
